theory Spec2Isabelle
  imports Complex_Main
begin

section \<open>Bluetooth direction finding: the MUSIC simulation of direction-finding-sim.ipynb\<close>

text \<open>
  The notebook computes with numpy's float64 and complex128 arrays. The embedding below
  reads a float as a real number and a complex float as a complex number, so that every
  statement is about the exact arithmetic the notebook approximates. The two places where
  the notebook leaves the finite numbers (a square root of a negative number, a division
  by zero inside numpy) are written out as values of their own.
\<close>

subsection \<open>Configuration constants (third code cell)\<close>

definition speed_of_light :: real where
  \<comment> \<open>\<open>scipy.constants.speed_of_light\<close>, in m/s\<close>
  "speed_of_light = 299792458"

definition FREQUENCY_DEVIATION :: real where
  "FREQUENCY_DEVIATION = 250000"

definition BLUETOOTH_FREQUENCY :: real where
  "BLUETOOTH_FREQUENCY = 2450000000"

definition CTE_FREQUENCY :: real where
  "CTE_FREQUENCY = BLUETOOTH_FREQUENCY + FREQUENCY_DEVIATION"

definition CTE_WAVELENGTH :: real where
  "CTE_WAVELENGTH = speed_of_light / CTE_FREQUENCY"

definition CTE_TIME :: real where
  "CTE_TIME = 160 / 1000000"

definition CTE_SAMPLES :: nat where
  "CTE_SAMPLES = 50"

definition NUM_SOURCES :: nat where
  "NUM_SOURCES = 1"

definition NUM_ANGLES_TO_SEARCH :: nat where
  "NUM_ANGLES_TO_SEARCH = 360"

definition MAX_SEARCH_ANGLE :: real where
  "MAX_SEARCH_ANGLE = 90"

subsection \<open>The array response model\<close>

definition deg2rad :: "real \<Rightarrow> real" where
  \<comment> \<open>\<open>np.deg2rad\<close>\<close>
  "deg2rad x = x * (pi / 180)"

definition arange :: "int \<Rightarrow> nat list" where
  \<comment> \<open>\<open>np.arange(0, n)\<close>: the integers \<open>0, ..., n - 1\<close>, none when \<open>n \<le> 0\<close>\<close>
  "arange n = [0..<nat n]"

definition response_vec :: "int \<Rightarrow> real \<Rightarrow> real \<Rightarrow> complex list" where
  \<comment> \<open>the column vector of shape \<open>(num_antennas, 1)\<close>, given by its entries from top to bottom\<close>
  "response_vec num_antennas incident_angle antenna_spacing =
     (let antennas = map (\<lambda>k. real k * antenna_spacing) (arange num_antennas)
      in map (\<lambda>x. exp (2 * \<i> * of_real pi * of_real x
                        * of_real (sin (deg2rad incident_angle)) / of_real CTE_WAVELENGTH))
             antennas)"

subsection \<open>Arrays\<close>

text \<open>
  A two-dimensional complex array is its shape and its entries; only the entries inside
  the shape are meaningful. Carrying the shape keeps the arrays with no row or no column
  apart, which the notebook meets when there is a single antenna.
\<close>

record cmat =
  nrows :: nat
  ncols :: nat
  entry :: "nat \<Rightarrow> nat \<Rightarrow> complex"

definition rows_of :: "cmat \<Rightarrow> complex list list" where
  "rows_of A = map (\<lambda>i. map (\<lambda>j. entry A i j) [0..<ncols A]) [0..<nrows A]"

definition zeros :: "nat \<Rightarrow> nat \<Rightarrow> cmat" where
  \<comment> \<open>\<open>np.zeros(shape=(r, c), dtype=complex)\<close>\<close>
  "zeros r c = \<lparr>nrows = r, ncols = c, entry = \<lambda>i j. 0\<rparr>"

definition column :: "complex list \<Rightarrow> cmat" where
  \<comment> \<open>a list read as an array of shape \<open>(n, 1)\<close>\<close>
  "column v = \<lparr>nrows = length v, ncols = 1, entry = \<lambda>i j. v ! i\<rparr>"

definition broadcast_add :: "complex list \<Rightarrow> real list \<Rightarrow> cmat" where
  \<comment> \<open>numpy's \<open>+\<close> on shapes \<open>(n, 1)\<close> and \<open>(m,)\<close>: the shapes broadcast to \<open>(n, m)\<close>,
      entry \<open>(i, j)\<close> is \<open>v[i, 0] + w[j]\<close>\<close>
  "broadcast_add v w =
     \<lparr>nrows = length v, ncols = length w, entry = \<lambda>i j. v ! i + of_real (w ! j)\<rparr>"

definition matmul :: "cmat \<Rightarrow> cmat \<Rightarrow> cmat" where
  \<comment> \<open>\<open>A @ B\<close>, for \<open>ncols A = nrows B\<close> as at every use below\<close>
  "matmul A B =
     \<lparr>nrows = nrows A, ncols = ncols B,
      entry = \<lambda>i j. \<Sum>k<ncols A. entry A i k * entry B k j\<rparr>"

definition conjugate_T :: "cmat \<Rightarrow> cmat" where
  \<comment> \<open>\<open>A.conjugate().T\<close>\<close>
  "conjugate_T A = \<lparr>nrows = ncols A, ncols = nrows A, entry = \<lambda>i j. cnj (entry A j i)\<rparr>"

definition mat_add :: "cmat \<Rightarrow> cmat \<Rightarrow> cmat" where
  \<comment> \<open>\<open>A += B\<close> on equal shapes\<close>
  "mat_add A B = \<lparr>nrows = nrows A, ncols = ncols A, entry = \<lambda>i j. entry A i j + entry B i j\<rparr>"

definition mat_div :: "cmat \<Rightarrow> real \<Rightarrow> cmat" where
  \<comment> \<open>\<open>A /= c\<close>\<close>
  "mat_div A c = \<lparr>nrows = nrows A, ncols = ncols A, entry = \<lambda>i j. entry A i j / of_real c\<rparr>"

definition column_slice :: "cmat \<Rightarrow> nat \<Rightarrow> nat \<Rightarrow> cmat" where
  \<comment> \<open>\<open>A[:, lo:hi]\<close>: Python clips both bounds to the number of columns\<close>
  "column_slice A lo hi =
     (let lo' = min lo (ncols A); hi' = min hi (ncols A)
      in \<lparr>nrows = nrows A, ncols = hi' - lo', entry = \<lambda>i j. entry A i (j + lo')\<rparr>)"

definition item :: "cmat \<Rightarrow> complex" where
  \<comment> \<open>\<open>.item()\<close> of an array of shape \<open>(1, 1)\<close>\<close>
  "item A = entry A 0 0"

definition linspace :: "real \<Rightarrow> real \<Rightarrow> nat \<Rightarrow> real list" where
  \<comment> \<open>\<open>np.linspace(start, stop, num)\<close>: \<open>arange(num) * step + start\<close> with
      \<open>step = (stop - start) / (num - 1)\<close>, the last entry set to \<open>stop\<close>\<close>
  "linspace start stop num =
     (if num = 0 then []
      else if num = 1 then [start]
      else (let step = (stop - start) / real (num - 1);
                y = map (\<lambda>i. real i * step + start) [0..<num]
            in y[num - 1 := stop]))"

subsection \<open>Errors and the numbers that are not finite\<close>

datatype error = ZeroDivisionError | LinAlgError

datatype cfloat = CNum complex | CInfNan
  \<comment> \<open>a complex128: a finite number, or \<open>inf+nanj\<close>, which numpy returns (with a warning,
      no exception) for the division of a non-zero number by \<open>0j\<close>\<close>

datatype rfloat = RNum real | RInf
  \<comment> \<open>a float64: a finite number, or \<open>inf\<close>\<close>

fun np_divide :: "complex \<Rightarrow> complex \<Rightarrow> cfloat" where
  "np_divide x y = (if y = 0 then CInfNan else CNum (x / y))"

fun np_real :: "cfloat \<Rightarrow> rfloat" where
  \<comment> \<open>\<open>.real\<close>\<close>
  "np_real (CNum z) = RNum (Re z)"
| "np_real CInfNan = RInf"

instantiation rfloat :: linorder
begin

fun less_eq_rfloat :: "rfloat \<Rightarrow> rfloat \<Rightarrow> bool" where
  "less_eq_rfloat (RNum x) (RNum y) = (x \<le> y)"
| "less_eq_rfloat (RNum x) RInf = True"
| "less_eq_rfloat RInf (RNum y) = False"
| "less_eq_rfloat RInf RInf = True"

definition less_rfloat :: "rfloat \<Rightarrow> rfloat \<Rightarrow> bool" where
  "less_rfloat a b = (a \<le> b \<and> \<not> b \<le> a)"

instance
proof
  fix a b c :: rfloat
  show "(a < b) = (a \<le> b \<and> \<not> b \<le> a)" by (simp add: less_rfloat_def)
  show "a \<le> a" by (cases a) simp_all
  show "a \<le> b \<Longrightarrow> b \<le> c \<Longrightarrow> a \<le> c" by (cases a; cases b; cases c) simp_all
  show "a \<le> b \<Longrightarrow> b \<le> a \<Longrightarrow> a = b" by (cases a; cases b) simp_all
  show "a \<le> b \<or> b \<le> a" by (cases a; cases b) auto
qed

end

subsection \<open>The random source\<close>

text \<open>
  \<open>np.random.seed(0)\<close> is run once, in a cell of its own, and sets numpy's global
  generator. The state of the generator is the sequence of standard normal numbers it
  has still to hand out; \<open>np.random.randn(n)\<close> hands out the next \<open>n\<close> of them.
\<close>

type_synonym rng = "nat \<Rightarrow> real"

definition randn :: "nat \<Rightarrow> rng \<Rightarrow> real list \<times> rng" where
  "randn n g = (map g [0..<n], \<lambda>i. g (i + n))"

subsection \<open>The sample covariance estimator\<close>

datatype covariance = Cov cmat | NaN_Cov nat
  \<comment> \<open>what \<open>sample_cov\<close> returns: an array of finite numbers, or the array of shape
      \<open>(n, n)\<close> whose entries are all nan\<close>

definition sample_step :: "complex list \<Rightarrow> real \<Rightarrow> real \<Rightarrow> cmat \<times> rng \<Rightarrow> cmat \<times> rng" where
  \<comment> \<open>one turn of the loop \<open>for t in sample_times\<close>, with \<open>scale\<close> for \<open>np.sqrt(0.5 / snr)\<close>;
      \<open>antenna_response\<close> has shape \<open>(n, 1)\<close> and the noise has shape \<open>(n,)\<close>, so their sum
      has shape \<open>(n, n)\<close>\<close>
  "sample_step antenna_response scale t =
     (\<lambda>(cov, g).
        let (noise, g') = randn (length antenna_response) g;
            iq_sample_at_t = broadcast_add antenna_response (map (\<lambda>z. scale * z) noise)
        in (mat_add cov (matmul iq_sample_at_t (conjugate_T iq_sample_at_t)), g'))"

definition sample_cov :: "rng \<Rightarrow> complex list \<Rightarrow> real \<Rightarrow> (error + covariance) \<times> rng" where
  \<comment> \<open>\<open>0.5 / snr\<close> divides two Python floats and raises ZeroDivisionError at \<open>snr = 0\<close>, in
      the first turn of the loop. For \<open>snr < 0\<close>, \<open>np.sqrt\<close> returns nan (a warning, no
      exception), and every entry of the sum and of the products is nan.\<close>
  "sample_cov g antenna_response snr =
     (let sample_times = linspace 0 CTE_TIME CTE_SAMPLES;
          num_antennas = length antenna_response;
          cov = zeros num_antennas num_antennas
      in if sample_times \<noteq> [] \<and> snr = 0 then (Inl ZeroDivisionError, g)
         else (let (cov, g') =
                     fold (sample_step antenna_response (sqrt (0.5 / snr))) sample_times (cov, g)
               in if sample_times \<noteq> [] \<and> snr < 0 \<and> num_antennas \<noteq> 0
                  then (Inr (NaN_Cov num_antennas), g')
                  else (Inr (Cov (mat_div cov (real CTE_SAMPLES))), g')))"

subsection \<open>The MUSIC spectrum estimator\<close>

type_synonym eig_routine = "cmat \<Rightarrow> error + complex list \<times> (nat \<Rightarrow> nat \<Rightarrow> complex)"
  \<comment> \<open>LAPACK's eigen-decomposition behind \<open>np.linalg.eig\<close>, a parameter of the model:
      on a square array of finite numbers it returns the eigenvalues and the entries of the
      array whose columns are the eigenvectors, in an order of its own, or fails\<close>

definition np_linalg_eig :: "eig_routine \<Rightarrow> covariance \<Rightarrow> error + complex list \<times> cmat" where
  \<comment> \<open>\<open>np.linalg.eig\<close> raises LinAlgError on an array that is not square or that holds a nan;
      the array of eigenvectors has the shape of its argument\<close>
  "np_linalg_eig eig covariance =
     (case covariance of
        NaN_Cov n \<Rightarrow> Inl LinAlgError
      | Cov A \<Rightarrow>
          if nrows A \<noteq> ncols A then Inl LinAlgError
          else (case eig A of
                  Inl e \<Rightarrow> Inl e
                | Inr (w, v) \<Rightarrow> Inr (w, \<lparr>nrows = nrows A, ncols = ncols A, entry = v\<rparr>)))"

definition shape0 :: "covariance \<Rightarrow> nat" where
  \<comment> \<open>\<open>covariance.shape[0]\<close>\<close>
  "shape0 covariance = (case covariance of Cov A \<Rightarrow> nrows A | NaN_Cov n \<Rightarrow> n)"

definition noise_subspace :: "cmat \<Rightarrow> nat \<Rightarrow> cmat" where
  \<comment> \<open>\<open>cov_eigvecs[:, NUM_SOURCES:num_antennas]\<close>, the array the notebook names
      \<open>non_noise_cov_eigvecs\<close> and uses in the denominator of the pseudo-power\<close>
  "noise_subspace cov_eigvecs num_antennas = column_slice cov_eigvecs NUM_SOURCES num_antennas"

definition pseudo_power :: "cmat \<Rightarrow> nat \<Rightarrow> real \<Rightarrow> real \<Rightarrow> cfloat" where
  \<comment> \<open>the body of the loop over the search angles\<close>
  "pseudo_power non_noise_cov_eigvecs num_antennas antenna_spacing angle =
     (let steering_at_test_angle = column (response_vec (int num_antennas) angle antenna_spacing)
      in np_divide 1
           (item (matmul (matmul (matmul (conjugate_T steering_at_test_angle)
                                         non_noise_cov_eigvecs)
                                 (conjugate_T non_noise_cov_eigvecs))
                         steering_at_test_angle)))"

definition music :: "eig_routine \<Rightarrow> covariance \<Rightarrow> real \<Rightarrow> error + real list \<times> cfloat list" where
  "music eig covariance antenna_spacing =
     (let num_antennas = shape0 covariance
      in case np_linalg_eig eig covariance of
           Inl e \<Rightarrow> Inl e
         | Inr (w, cov_eigvecs) \<Rightarrow>
             (let non_noise_cov_eigvecs = noise_subspace cov_eigvecs num_antennas;
                  search_angles = linspace (- MAX_SEARCH_ANGLE) MAX_SEARCH_ANGLE NUM_ANGLES_TO_SEARCH;
                  signal_powers =
                    map (pseudo_power non_noise_cov_eigvecs num_antennas antenna_spacing)
                        search_angles
              in Inr (search_angles, signal_powers)))"

subsection \<open>Peak finding\<close>

text \<open>
  \<open>scipy.signal.find_peaks(x, height=h)\<close>: the local maxima of \<open>x\<close>, found by the scan below
  (\<open>_local_maxima_1d\<close>), of which those with \<open>h \<le> x[peak]\<close> are kept. A run of equal values
  that is higher than the values on both sides of it gives one peak, at the middle of the
  run, rounded down.
\<close>

function ahead :: "'a list \<Rightarrow> nat \<Rightarrow> nat \<Rightarrow> nat" where
  \<comment> \<open>\<open>while i_ahead < i_max and x[i_ahead] == x[i]: i_ahead += 1\<close>, with \<open>i_max = len(x) - 1\<close>\<close>
  "ahead x i i_ahead =
     (if i_ahead < length x - 1 \<and> x ! i_ahead = x ! i then ahead x i (i_ahead + 1) else i_ahead)"
  by pat_completeness auto
termination
  by (relation "measure (\<lambda>(x, i, i_ahead). length x - 1 - i_ahead)") auto

function local_maxima_from :: "('a::linorder) list \<Rightarrow> nat \<Rightarrow> nat list" where
  \<comment> \<open>the loop \<open>while i < i_max\<close> from the index \<open>i\<close> on, returning the midpoints it finds\<close>
  "local_maxima_from x i =
     (if i < length x - 1 then
        (if x ! (i - 1) < x ! i then
           (let i_ahead = ahead x i (i + 1)
            in if x ! i_ahead < x ! i
               then ((i + (i_ahead - 1)) div 2) # local_maxima_from x (i_ahead + 1)
               else local_maxima_from x (i + 1))
         else local_maxima_from x (i + 1))
      else [])"
  by pat_completeness auto
termination
proof (relation "measure (\<lambda>(x, i). length x - i)")
  show "wf (measure (\<lambda>(x :: 'a list, i). length x - i))" by simp
next
  fix x :: "'a list" and i a
  assume i: "i < length x - 1" and a: "a = ahead x i (i + 1)"
  have ge: "j \<le> ahead x i j" for j
    by (induction x i j rule: ahead.induct) (metis ahead.simps le_add1 le_trans order_refl)
  have "i + 1 \<le> a" using ge [of "i + 1"] a by simp
  with i show "((x, a + 1), (x, i)) \<in> measure (\<lambda>(x, i). length x - i)" by simp
qed auto

definition local_maxima_1d :: "('a::linorder) list \<Rightarrow> nat list" where
  \<comment> \<open>the scan starts at \<open>i = 1\<close>: the first sample cannot be a maximum, nor can the last\<close>
  "local_maxima_1d x = local_maxima_from x 1"

definition find_peaks :: "('a::linorder) list \<Rightarrow> 'a \<Rightarrow> nat list" where
  "find_peaks x height = filter (\<lambda>peak. height \<le> x ! peak) (local_maxima_1d x)"

subsection \<open>The pipeline\<close>

definition extract_angles :: "real list \<Rightarrow> ('a::linorder) list \<Rightarrow> 'a \<Rightarrow> real list" where
  \<comment> \<open>\<open>peaks, _ = find_peaks(signal_powers, height=1)\<close> and \<open>search_angles[peak]\<close> for each
      peak; every peak is an index of \<open>signal_powers\<close>, which is as long as \<open>search_angles\<close>\<close>
  "extract_angles search_angles signal_powers height =
     map (\<lambda>peak. search_angles ! peak) (find_peaks signal_powers height)"

definition draw_pseudo_spectrum ::
  "eig_routine \<Rightarrow> rng \<Rightarrow> int \<Rightarrow> real \<Rightarrow> real \<Rightarrow> real \<Rightarrow> (error + real list) \<times> rng" where
  \<comment> \<open>the computation of \<open>draw_pseudo_spectrum\<close>, returning the angles at which it draws an
      "Estimated angle" line; the curve \<open>20 * np.log10(signal_powers)\<close> is only plotted\<close>
  "draw_pseudo_spectrum eig g num_antennas incident_angle snr antenna_spacing =
     (let antenna_spacing = antenna_spacing / 100;
          antenna_response = response_vec num_antennas incident_angle antenna_spacing;
          (sample_covariance, g') = sample_cov g antenna_response snr
      in case sample_covariance of
           Inl e \<Rightarrow> (Inl e, g')
         | Inr sample_covariance \<Rightarrow>
             (case music eig sample_covariance antenna_spacing of
                Inl e \<Rightarrow> (Inl e, g')
              | Inr (search_angles, signal_powers) \<Rightarrow>
                  (let signal_powers = map np_real signal_powers
                   in (Inr (extract_angles search_angles signal_powers (RNum 1)), g'))))"

subsection \<open>Properties of arrays\<close>

definition hermitian :: "cmat \<Rightarrow> bool" where
  \<comment> \<open>a square array that equals its own conjugate transpose\<close>
  "hermitian A =
     (nrows A = ncols A \<and> (\<forall>i<nrows A. \<forall>j<ncols A. entry A i j = cnj (entry A j i)))"

definition quadratic_form :: "cmat \<Rightarrow> (nat \<Rightarrow> complex) \<Rightarrow> complex" where
  \<comment> \<open>\<open>v\<^sup>* A v\<close>, for the vector \<open>v\<close> given by its entries\<close>
  "quadratic_form A v = (\<Sum>i<nrows A. \<Sum>j<ncols A. cnj (v i) * entry A i j * v j)"

definition positive_semidefinite :: "cmat \<Rightarrow> bool" where
  \<comment> \<open>\<open>v\<^sup>* A v\<close> is a real number and is not negative, for every vector \<open>v\<close>\<close>
  "positive_semidefinite A =
     (\<forall>v. Im (quadratic_form A v) = 0 \<and> 0 \<le> Re (quadratic_form A v))"

definition sample_term :: "complex list \<Rightarrow> real \<Rightarrow> rng \<Rightarrow> nat \<Rightarrow> nat \<Rightarrow> nat \<Rightarrow> complex" where
  \<comment> \<open>entry \<open>(i, k)\<close> of the product that turn \<open>t\<close> of the loop of \<open>sample_cov\<close> adds, in
      terms of the state \<open>g\<close> of the generator before the loop (a name for the proofs)\<close>
  "sample_term a s g t i k =
     (\<Sum>j<length a. (a ! i + of_real (s * g (t * length a + j)))
                      * cnj (a ! k + of_real (s * g (t * length a + j))))"

subsection \<open>The estimator as the specification words it\<close>

text \<open>
  The specification's covariance estimator, for comparison with \<open>sample_cov\<close>: at each of
  the \<open>CTE_SAMPLES\<close> instants one observation vector, the steering vector with its own
  noise value added to each element, and the average of the outer products of the
  observation vectors with their conjugate transposes.
\<close>

definition spec_observation :: "complex list \<Rightarrow> real \<Rightarrow> real list \<Rightarrow> complex list" where
  "spec_observation steering sigma noise =
     map (\<lambda>(x, z). x + of_real (sigma * z)) (zip steering noise)"

definition outer_product :: "complex list \<Rightarrow> cmat" where
  "outer_product y = matmul (column y) (conjugate_T (column y))"

definition spec_step :: "complex list \<Rightarrow> real \<Rightarrow> nat \<Rightarrow> cmat \<times> rng \<Rightarrow> cmat \<times> rng" where
  "spec_step steering sigma t =
     (\<lambda>(acc, g).
        let (noise, g') = randn (length steering) g
        in (mat_add acc (outer_product (spec_observation steering sigma noise)), g'))"

definition spec_estimate_covariance :: "rng \<Rightarrow> complex list \<Rightarrow> real \<Rightarrow> cmat" where
  "spec_estimate_covariance g steering snr =
     mat_div (fst (fold (spec_step steering (sqrt (0.5 / snr))) [0..<CTE_SAMPLES]
                        (zeros (length steering) (length steering), g)))
             (real CTE_SAMPLES)"

definition spec_term :: "complex list \<Rightarrow> real \<Rightarrow> rng \<Rightarrow> nat \<Rightarrow> nat \<Rightarrow> nat \<Rightarrow> complex" where
  \<comment> \<open>entry \<open>(i, k)\<close> of the outer product of the observation vector of instant \<open>t\<close>, in
      terms of the state \<open>g\<close> of the generator before the first instant (a name for the
      proofs)\<close>
  "spec_term a s g t i k =
     (let y = spec_observation a s (map (\<lambda>j. g (t * length a + j)) [0..<length a])
      in y ! i * cnj (y ! k))"

definition alternating_noise :: rng where
  \<comment> \<open>a state of the generator: the draws 1, -1, 1, -1, ...\<close>
  "alternating_noise = (\<lambda>i. if even i then 1 else - 1)"

definition late_noise :: rng where
  \<comment> \<open>a state of the generator: a hundred draws of 0, then draws of 1\<close>
  "late_noise = (\<lambda>i. if i < 100 then 0 else 1)"

subsection \<open>The noise subspace as the specification words it\<close>

text \<open>
  The specification sorts the eigenpairs by eigenvalue before it splits them: the
  \<open>num_sources\<close> eigenvectors of the largest eigenvalues span the signal subspace, the
  others the noise subspace. The eigenvalues of a Hermitian array are real numbers.
\<close>

definition spec_noise_subspace :: "complex list \<Rightarrow> cmat \<Rightarrow> nat \<Rightarrow> cmat" where
  "spec_noise_subspace w v num_sources =
     (let by_eigenvalue = sort_key (\<lambda>j. - Re (w ! j)) [0..<ncols v];
          noise = drop num_sources by_eigenvalue
      in \<lparr>nrows = nrows v, ncols = length noise, entry = \<lambda>i j. entry v i (noise ! j)\<rparr>)"

definition diag_matrix :: "complex list \<Rightarrow> cmat" where
  \<comment> \<open>\<open>np.diag(w)\<close>\<close>
  "diag_matrix w =
     \<lparr>nrows = length w, ncols = length w, entry = \<lambda>i j. if i = j then w ! i else 0\<rparr>"

definition identity_matrix :: "nat \<Rightarrow> cmat" where
  \<comment> \<open>\<open>np.eye(n)\<close>\<close>
  "identity_matrix n = \<lparr>nrows = n, ncols = n, entry = \<lambda>i j. if i = j then 1 else 0\<rparr>"

definition eig_of_diagonal :: "complex list \<Rightarrow> eig_routine" where
  \<comment> \<open>an eigen-decomposition routine that returns, as LAPACK does on a diagonal array, the
      diagonal \<open>w\<close> in its order and the columns of the identity\<close>
  "eig_of_diagonal w = (\<lambda>A. Inr (w, \<lambda>i j. if i = j then 1 else 0))"

definition eig_of_scalar :: eig_routine where
  \<comment> \<open>the eigen-decomposition of an array of shape \<open>(1, 1)\<close>: its entry, and the vector 1\<close>
  "eig_of_scalar = (\<lambda>A. Inr ([entry A 0 0], \<lambda>i j. 1))"

definition eig_of_empty :: eig_routine where
  \<comment> \<open>the eigen-decomposition of an array of shape \<open>(0, 0)\<close>: no eigenvalue, no eigenvector\<close>
  "eig_of_empty = (\<lambda>A. Inr ([], \<lambda>i j. 0))"

subsection \<open>Peaks, and the angle extractor as the specification words it\<close>

definition plateau_peak :: "('a::linorder) list \<Rightarrow> nat \<Rightarrow> nat \<Rightarrow> bool" where
  \<comment> \<open>the samples \<open>l, ..., r\<close> are equal, none of them is the first or the last sample, and
      the samples before \<open>l\<close> and after \<open>r\<close> are lower\<close>
  "plateau_peak x l r =
     (1 \<le> l \<and> l \<le> r \<and> r + 1 < length x \<and> x ! (l - 1) < x ! l \<and>
      (\<forall>k. l \<le> k \<and> k \<le> r \<longrightarrow> x ! k = x ! l) \<and> x ! (r + 1) < x ! l)"

definition peaks_from :: "('a::linorder) list \<Rightarrow> nat \<Rightarrow> nat set" where
  \<comment> \<open>the middles of the runs that start at the index \<open>i\<close> or later (a name for the proofs)\<close>
  "peaks_from x i = (\<lambda>(l, r). (l + r) div 2) ` {(l, r). i \<le> l \<and> plateau_peak x l r}"

text \<open>
  The specification's extractor, for comparison with \<open>extract_angles\<close>: the powers are
  converted to decibels, and the angles reported are those of the interior points whose
  decibel value is greater than both neighbours' and greater than the threshold.
\<close>

definition spec_extract_angles :: "real list \<Rightarrow> real list \<Rightarrow> real \<Rightarrow> real list" where
  "spec_extract_angles grid spectrum db_threshold =
     (let db = map (\<lambda>power. 20 * log 10 power) spectrum
      in map (\<lambda>i. grid ! i)
           (filter (\<lambda>i. db ! (i - 1) < db ! i \<and> db ! (i + 1) < db ! i \<and> db_threshold < db ! i)
                   [1..<length db - 1]))"

definition low_peak_spectrum :: "real list" where
  \<comment> \<open>a pseudo-spectrum over the search grid: the power 1 (0 dB) at index 1, 1/2 elsewhere\<close>
  "low_peak_spectrum = (replicate NUM_ANGLES_TO_SEARCH (1 / 2))[1 := 1]"

subsection \<open>Facts about the array response model\<close>

lemma length_response_vec: "length (response_vec n a d) = nat n"
  by (simp add: response_vec_def arange_def)

lemma response_vec_nth:
  assumes "k < nat n"
  shows "response_vec n a d ! k =
           exp (2 * \<i> * of_real pi * of_real (real k * d)
                * of_real (sin (deg2rad a)) / of_real CTE_WAVELENGTH)"
  using assms by (simp add: response_vec_def arange_def)

lemma response_vec_nth_phase:
  assumes "k < nat n"
  shows "response_vec n a d ! k =
           exp (\<i> * of_real (2 * pi * (real k * d) * sin (deg2rad a) / CTE_WAVELENGTH))"
  using assms by (simp add: response_vec_nth mult_ac)

text \<open>
  Claim C6. \<open>response_vec\<close> returns \<open>antenna_count\<close> elements, and the element at index
  \<open>k\<close> is \<open>exp(i * 2 * pi * k * spacing * sin(radians(angle)) / wavelength)\<close>, where the
  wavelength is the propagation speed divided by the frequency. At the angles of 90 and
  of -90 degrees the function returns as at any other angle (it is total: nothing in it
  raises), and the sine in the formula is 1 and -1. The statement needs none of the
  bounds of the claim on the antenna count, the angle and the spacing.
\<close>

theorem response_vec_elements:
  "length (response_vec n a d) = nat n \<and>
   CTE_WAVELENGTH = speed_of_light / CTE_FREQUENCY \<and>
   (\<forall>k<nat n. response_vec n a d ! k =
      exp (\<i> * of_real (2 * pi * (real k * d) * sin (a * pi / 180) / CTE_WAVELENGTH))) \<and>
   (\<forall>k<nat n. response_vec n 90 d ! k =
      exp (\<i> * of_real (2 * pi * (real k * d) * 1 / CTE_WAVELENGTH))) \<and>
   (\<forall>k<nat n. response_vec n (- 90) d ! k =
      exp (\<i> * of_real (2 * pi * (real k * d) * (- 1) / CTE_WAVELENGTH)))"
  by (simp add: length_response_vec response_vec_nth_phase deg2rad_def CTE_WAVELENGTH_def)

theorem response_vec_elements_witness:
  "(1::nat) < nat 2 \<and> length (response_vec 2 90 (3 / 50)) = 2 \<and>
   response_vec 2 90 (3 / 50) ! 1 =
     exp (\<i> * of_real (2 * pi * (real (1::nat) * (3 / 50)) * 1 / CTE_WAVELENGTH))"
  using response_vec_elements [of 2 90 "3 / 50"] by simp

text \<open>
  Claim C7. Every element of the vector that \<open>response_vec\<close> returns has magnitude 1, in
  exact arithmetic, for every antenna count, angle and spacing.
\<close>

theorem response_vec_unit_magnitude: "\<forall>z \<in> set (response_vec n a d). cmod z = 1"
  by (auto simp add: response_vec_def)

theorem response_vec_unit_magnitude_witness:
  "length (response_vec 2 60 (3 / 50)) = 2 \<and> cmod (response_vec 2 60 (3 / 50) ! 1) = 1"
proof -
  have len: "length (response_vec 2 60 (3 / 50)) = 2"
    by (simp add: length_response_vec)
  then have "response_vec 2 60 (3 / 50) ! 1 \<in> set (response_vec 2 60 (3 / 50))"
    by simp
  with len response_vec_unit_magnitude [of 2 60 "3 / 50"] show ?thesis
    by blast
qed

text \<open>
  Claim C10. With at least one antenna, the element at index 0 is exactly 1 for every
  angle and every spacing; at the angle 0 every element is 1.
\<close>

theorem response_vec_reference_antenna:
  "1 \<le> n \<Longrightarrow> response_vec n a d ! 0 = 1 \<and> (\<forall>z \<in> set (response_vec n 0 d). z = 1)"
proof
  assume "1 \<le> n"
  then have "0 < nat n" by simp
  then show "response_vec n a d ! 0 = 1" by (simp add: response_vec_nth)
next
  show "\<forall>z \<in> set (response_vec n 0 d). z = 1"
    by (auto simp add: response_vec_def deg2rad_def)
qed

theorem response_vec_reference_antenna_witness:
  "(1::int) \<le> 2 \<and> response_vec 2 60 (3 / 50) ! 0 = 1 \<and> response_vec 2 0 (3 / 50) ! 1 = 1"
proof -
  have "response_vec 2 0 (3 / 50) ! 1 \<in> set (response_vec 2 0 (3 / 50))"
    by (simp add: length_response_vec)
  with response_vec_reference_antenna [of 2 60 "3 / 50"] show ?thesis
    by simp
qed

subsection \<open>Facts about the sample covariance estimator\<close>


lemma sample_step_eq:
  "sample_step a s t (C, g) =
     (\<lparr>nrows = nrows C, ncols = ncols C,
       entry = \<lambda>i k. entry C i k + sample_term a s g 0 i k\<rparr>,
      \<lambda>i. g (i + length a))"
proof -
  have "(\<Sum>j<length a. (a ! i + of_real (map (\<lambda>z. s * z) (map g [0..<length a]) ! j))
                          * cnj (a ! k + of_real (map (\<lambda>z. s * z) (map g [0..<length a]) ! j)))
        = sample_term a s g 0 i k" for i k
    unfolding sample_term_def by (rule sum.cong) simp_all
  then show ?thesis
    by (simp add: sample_step_def randn_def mat_add_def matmul_def conjugate_T_def
        broadcast_add_def)
qed

lemma sample_term_shift:
  "sample_term a s (\<lambda>i. g (i + length a)) t i k = sample_term a s g (Suc t) i k"
  by (simp add: sample_term_def add.commute add.left_commute)

lemma fold_sample_step:
  "fold (sample_step a s) ts (C, g) =
     (\<lparr>nrows = nrows C, ncols = ncols C,
       entry = \<lambda>i k. entry C i k + (\<Sum>t<length ts. sample_term a s g t i k)\<rparr>,
      \<lambda>i. g (i + length ts * length a))"
proof (induction ts arbitrary: C g)
  case Nil
  show ?case by simp
next
  case (Cons t ts)
  show ?case
    by (simp add: sample_step_eq Cons.IH sample_term_shift sum.lessThan_Suc_shift
        add.assoc add.commute add.left_commute del: sum.lessThan_Suc)
qed


lemma length_linspace: "length (linspace a b n) = n"
  by (simp add: linspace_def Let_def)

lemma sample_cov_pos:
  assumes "0 < snr"
  shows "sample_cov g a snr =
     (Inr (Cov \<lparr>nrows = length a, ncols = length a,
                 entry = \<lambda>i k. (\<Sum>t<CTE_SAMPLES. sample_term a (sqrt (0.5 / snr)) g t i k)
                                / of_real (real CTE_SAMPLES)\<rparr>),
      \<lambda>i. g (i + CTE_SAMPLES * length a))"
  using assms
  by (simp add: sample_cov_def Let_def fold_sample_step length_linspace zeros_def mat_div_def)

lemma gram_quadratic_form:
  fixes X :: "'p \<Rightarrow> nat \<Rightarrow> complex"
  shows "(\<Sum>i<n. \<Sum>k<n. cnj (v i) * (\<Sum>p\<in>P. X p i * cnj (X p k)) * v k)
         = (\<Sum>p\<in>P. of_real ((cmod (\<Sum>i<n. cnj (v i) * X p i))\<^sup>2))"
proof -
  have "(\<Sum>p\<in>P. of_real ((cmod (\<Sum>i<n. cnj (v i) * X p i))\<^sup>2))
        = (\<Sum>p\<in>P. (\<Sum>i<n. cnj (v i) * X p i) * cnj (\<Sum>k<n. cnj (v k) * X p k))"
    by (simp only: complex_norm_square)
  also have "\<dots> = (\<Sum>p\<in>P. \<Sum>i<n. \<Sum>k<n. cnj (v i) * (X p i * cnj (X p k)) * v k)"
    by (simp add: sum_product) (simp add: mult_ac)
  also have "\<dots> = (\<Sum>i<n. \<Sum>p\<in>P. \<Sum>k<n. cnj (v i) * (X p i * cnj (X p k)) * v k)"
    by (rule sum.swap)
  also have "\<dots> = (\<Sum>i<n. \<Sum>k<n. \<Sum>p\<in>P. cnj (v i) * (X p i * cnj (X p k)) * v k)"
    by (rule sum.cong [OF refl]) (rule sum.swap)
  also have "\<dots> = (\<Sum>i<n. \<Sum>k<n. cnj (v i) * (\<Sum>p\<in>P. X p i * cnj (X p k)) * v k)"
    by (simp add: sum_distrib_left sum_distrib_right)
  finally show ?thesis by simp
qed


lemma sample_term_cnj: "cnj (sample_term a s g t i k) = sample_term a s g t k i"
  by (simp add: sample_term_def mult.commute)

lemma sample_terms_as_pairs:
  "(\<Sum>t<S. sample_term a s g t i k)
   = (\<Sum>p\<in>{..<S} \<times> {..<length a}.
        (a ! i + of_real (s * g (fst p * length a + snd p)))
        * cnj (a ! k + of_real (s * g (fst p * length a + snd p))))"
  by (simp add: sample_term_def sum.cartesian_product case_prod_unfold)

lemma sample_quadratic_form:
  "(\<Sum>i<length a. \<Sum>k<length a.
       cnj (v i) * ((\<Sum>t<S. sample_term a s g t i k) / of_real c) * v k)
   = of_real ((\<Sum>p\<in>{..<S} \<times> {..<length a}.
        (cmod (\<Sum>i<length a. cnj (v i) * (a ! i + of_real (s * g (fst p * length a + snd p)))))\<^sup>2) / c)"
proof -
  have "(\<Sum>i<length a. \<Sum>k<length a.
           cnj (v i) * ((\<Sum>t<S. sample_term a s g t i k) / of_real c) * v k)
        = (\<Sum>i<length a. \<Sum>k<length a.
             cnj (v i) * (\<Sum>t<S. sample_term a s g t i k) * v k / of_real c)"
    by simp
  also have "\<dots> = (\<Sum>i<length a. \<Sum>k<length a.
             cnj (v i) * (\<Sum>t<S. sample_term a s g t i k) * v k) / of_real c"
    by (simp only: sum_divide_distrib)
  also have "\<dots> = (\<Sum>p\<in>{..<S} \<times> {..<length a}. of_real ((cmod (\<Sum>i<length a.
             cnj (v i) * (a ! i + of_real (s * g (fst p * length a + snd p)))))\<^sup>2)) / of_real c"
    unfolding sample_terms_as_pairs by (simp only: gram_quadratic_form)
  finally show ?thesis by (simp only: of_real_sum of_real_divide)
qed

text \<open>
  Claim C8. For every steering vector, every \<open>snr > 0\<close> and every state of the random
  generator (every realisation of the noise), \<open>sample_cov\<close> returns a square array of the
  size of the steering vector that is Hermitian and positive semi-definite, in exact
  arithmetic.
\<close>

theorem sample_cov_hermitian_psd:
  assumes "0 < snr"
  shows "\<exists>M. fst (sample_cov g a snr) = Inr (Cov M) \<and> nrows M = length a \<and> ncols M = length a
             \<and> hermitian M \<and> positive_semidefinite M"
proof -
  let ?M = "\<lparr>nrows = length a, ncols = length a,
             entry = \<lambda>i k. (\<Sum>t<CTE_SAMPLES. sample_term a (sqrt (0.5 / snr)) g t i k)
                            / of_real (real CTE_SAMPLES)\<rparr>"
  have 1: "fst (sample_cov g a snr) = Inr (Cov ?M)"
    using assms by (simp add: sample_cov_pos)
  have 2: "hermitian ?M"
    by (simp add: hermitian_def sample_term_cnj)
  have 3: "positive_semidefinite ?M"
    unfolding positive_semidefinite_def
  proof
    fix v :: "nat \<Rightarrow> complex"
    define r where "r = (\<Sum>p\<in>{..<CTE_SAMPLES} \<times> {..<length a}.
        (cmod (\<Sum>i<length a. cnj (v i)
           * (a ! i + of_real (sqrt (0.5 / snr) * g (fst p * length a + snd p)))))\<^sup>2) / real CTE_SAMPLES"
    have "0 \<le> r"
      unfolding r_def by (intro divide_nonneg_nonneg sum_nonneg) simp_all
    moreover have "quadratic_form ?M v = of_real r"
      unfolding r_def quadratic_form_def cmat.simps by (rule sample_quadratic_form)
    ultimately show "Im (quadratic_form ?M v) = 0 \<and> 0 \<le> Re (quadratic_form ?M v)"
      by simp
  qed
  from 1 2 3 show ?thesis by auto
qed


lemma sample_cov_nonzero:
  assumes "snr \<noteq> 0"
  shows "sample_cov g a snr =
     (if snr < 0 \<and> length a \<noteq> 0 then Inr (NaN_Cov (length a))
      else Inr (Cov \<lparr>nrows = length a, ncols = length a,
                 entry = \<lambda>i k. (\<Sum>t<CTE_SAMPLES. sample_term a (sqrt (0.5 / snr)) g t i k)
                                / of_real (real CTE_SAMPLES)\<rparr>),
      \<lambda>i. g (i + CTE_SAMPLES * length a))"
proof -
  have "linspace 0 CTE_TIME CTE_SAMPLES \<noteq> []"
    using length_linspace [of 0 CTE_TIME CTE_SAMPLES] by (auto simp add: CTE_SAMPLES_def)
  with assms show ?thesis
    by (simp add: sample_cov_def Let_def fold_sample_step length_linspace zeros_def mat_div_def)
qed

lemma sample_cov_zero: "sample_cov g a 0 = (Inl ZeroDivisionError, g)"
proof -
  have "linspace 0 CTE_TIME CTE_SAMPLES \<noteq> []"
    using length_linspace [of 0 CTE_TIME CTE_SAMPLES] by (auto simp add: CTE_SAMPLES_def)
  then show ?thesis
    by (simp add: sample_cov_def Let_def)
qed

lemma response_vec_broadside: "response_vec 2 0 d = [1, 1]"
  by (simp add: response_vec_def arange_def deg2rad_def numeral_2_eq_2)

lemma upt_2: "[0..<2] = [0, Suc 0]"
  by (simp add: numeral_2_eq_2)

lemma sum_less_2: "(\<Sum>j<Suc (Suc 0). f j) = f 0 + (f (Suc 0) :: complex)"
  by simp

lemma sample_term_alternating:
  assumes "i < 2" and "k < 2"
  shows "sample_term [1, 1] 1 alternating_noise t i k = 4"
proof -
  have "[1, 1 :: complex] ! i = 1"
    using assms(1) by (cases i) simp_all
  moreover have "[1, 1 :: complex] ! k = 1"
    using assms(2) by (cases k) simp_all
  ultimately show ?thesis
    by (simp add: sample_term_def alternating_noise_def sum_less_2 del: sum.lessThan_Suc)
qed

lemma code_at_alternating:
  "\<exists>M. fst (sample_cov alternating_noise (response_vec 2 0 (3 / 50)) (1 / 2)) = Inr (Cov M)
       \<and> rows_of M = [[4, 4], [4, 4]]"
  by (simp add: sample_cov_pos response_vec_broadside sample_term_alternating CTE_SAMPLES_def
      rows_of_def upt_2)


lemma spec_step_eq:
  "spec_step a s t (C, g) =
     (\<lparr>nrows = nrows C, ncols = ncols C,
       entry = \<lambda>i k. entry C i k + spec_term a s g 0 i k\<rparr>,
      \<lambda>i. g (i + length a))"
  by (simp add: spec_step_def randn_def mat_add_def outer_product_def matmul_def
      conjugate_T_def column_def spec_term_def Let_def)

lemma spec_term_shift:
  "spec_term a s (\<lambda>i. g (i + length a)) t i k = spec_term a s g (Suc t) i k"
  by (simp add: spec_term_def add.commute add.left_commute Let_def)

lemma fold_spec_step:
  "fold (spec_step a s) ts (C, g) =
     (\<lparr>nrows = nrows C, ncols = ncols C,
       entry = \<lambda>i k. entry C i k + (\<Sum>t<length ts. spec_term a s g t i k)\<rparr>,
      \<lambda>i. g (i + length ts * length a))"
proof (induction ts arbitrary: C g)
  case Nil
  show ?case by simp
next
  case (Cons t ts)
  show ?case
    by (simp add: spec_step_eq Cons.IH spec_term_shift sum.lessThan_Suc_shift
        add.assoc add.commute add.left_commute del: sum.lessThan_Suc)
qed

lemma spec_estimate_covariance_eq:
  "spec_estimate_covariance g a snr =
     \<lparr>nrows = length a, ncols = length a,
      entry = \<lambda>i k. (\<Sum>t<CTE_SAMPLES. spec_term a (sqrt (0.5 / snr)) g t i k)
                     / of_real (real CTE_SAMPLES)\<rparr>"
  by (simp add: spec_estimate_covariance_def fold_spec_step zeros_def mat_div_def)

lemma spec_term_alternating:
  "spec_term [1, 1] 1 alternating_noise t i k = [2, 0] ! i * cnj ([2, 0] ! k)"
  by (simp add: spec_term_def spec_observation_def alternating_noise_def upt_2 Let_def)

lemma spec_at_alternating:
  "rows_of (spec_estimate_covariance alternating_noise (response_vec 2 0 (3 / 50)) (1 / 2))
     = [[4, 0], [0, 0]]"
  by (simp add: spec_estimate_covariance_eq response_vec_broadside spec_term_alternating
      CTE_SAMPLES_def rows_of_def upt_2)


lemma draw_index_bound:
  assumes "t < S" and "j < (n::nat)"
  shows "t * n + j < S * n"
proof -
  have "t * n + j < t * n + n" using assms(2) by simp
  also have "\<dots> = Suc t * n" by simp
  also have "\<dots> \<le> S * n" using assms(1) by (intro mult_le_mono1) simp
  finally show ?thesis .
qed

lemma sample_term_cong:
  assumes "\<forall>i<S * length a. g i = g' i" and "t < S"
  shows "sample_term a s g t i k = sample_term a s g' t i k"
  unfolding sample_term_def
proof (rule sum.cong [OF refl])
  fix j assume "j \<in> {..<length a}"
  then have "t * length a + j < S * length a"
    using assms(2) by (simp add: draw_index_bound)
  then have "g (t * length a + j) = g' (t * length a + j)"
    using assms(1) by simp
  then show "(a ! i + of_real (s * g (t * length a + j))) * cnj (a ! k + of_real (s * g (t * length a + j)))
     = (a ! i + of_real (s * g' (t * length a + j))) * cnj (a ! k + of_real (s * g' (t * length a + j)))"
    by simp
qed

lemma sample_terms_cong:
  assumes "\<forall>i<S * length a. g i = g' i"
  shows "(\<Sum>t<S. sample_term a s g t i k) = (\<Sum>t<S. sample_term a s g' t i k)"
  by (rule sum.cong [OF refl]) (simp add: sample_term_cong [OF assms])

text \<open>
  Claim C5, as amended. The generator is seeded once, when the notebook starts, and
  \<open>sample_cov\<close> is a function of the steering vector, of \<open>snr\<close> and of the state of the
  generator at the call: it reads the next \<open>CTE_SAMPLES * N\<close> draws and nothing else of
  the state, so two calls from states that agree on these draws return the same result,
  and (when \<open>snr\<close> is not 0) it leaves the generator advanced by \<open>CTE_SAMPLES * N\<close> draws.
\<close>

theorem sample_cov_reads_next_draws:
  assumes "\<forall>i<CTE_SAMPLES * length a. g i = g' i"
  shows "fst (sample_cov g a snr) = fst (sample_cov g' a snr) \<and>
         (snr \<noteq> 0 \<longrightarrow> snd (sample_cov g a snr) = (\<lambda>i. g (i + CTE_SAMPLES * length a)))"
proof (cases "snr = 0")
  case True
  then show ?thesis by (simp add: sample_cov_zero)
next
  case False
  then show ?thesis
    by (simp add: sample_cov_nonzero sample_terms_cong [OF assms])
qed

lemma sample_term_late_first:
  assumes "t < 50"
  shows "sample_term [1, 1] 1 late_noise t 0 0 = 2"
  using assms by (simp add: sample_term_def late_noise_def sum_less_2 del: sum.lessThan_Suc)

lemma sample_term_late_second:
  "sample_term [1, 1] 1 (\<lambda>i. late_noise (i + 100)) t 0 0 = 8"
  by (simp add: sample_term_def late_noise_def sum_less_2 del: sum.lessThan_Suc)

lemma sample_terms_late_first: "(\<Sum>t<50. sample_term [1, 1] 1 late_noise t 0 0) = 100"
proof -
  have "(\<Sum>t<50. sample_term [1, 1] 1 late_noise t 0 0) = (\<Sum>t<(50::nat). 2)"
    by (rule sum.cong [OF refl]) (simp add: sample_term_late_first)
  then show ?thesis by simp
qed

text \<open>
  Claim C5 as stated fails: the second call after seeding, on the same steering vector
  and the same \<open>snr\<close>, reads later draws and returns another matrix.
\<close>

theorem sample_cov_second_call_differs:
  "fst (sample_cov late_noise [1, 1] (1 / 2))
   \<noteq> fst (sample_cov (snd (sample_cov late_noise [1, 1] (1 / 2))) [1, 1] (1 / 2))"
proof
  assume "fst (sample_cov late_noise [1, 1] (1 / 2))
   = fst (sample_cov (snd (sample_cov late_noise [1, 1] (1 / 2))) [1, 1] (1 / 2))"
  then have "(\<lambda>i k. (\<Sum>t<50. sample_term [1, 1] 1 late_noise t i k) / (50::complex))
      = (\<lambda>i k. (\<Sum>t<50. sample_term [1, 1] 1 (\<lambda>i. late_noise (i + 100)) t i k) / 50)"
    by (simp add: sample_cov_pos CTE_SAMPLES_def)
  then have "(\<Sum>t<50. sample_term [1, 1] 1 late_noise t 0 0) / (50::complex)
      = (\<Sum>t<50. sample_term [1, 1] 1 (\<lambda>i. late_noise (i + 100)) t 0 0) / 50"
    by metis
  then show False
    by (simp add: sample_terms_late_first sample_term_late_second)
qed


text \<open>
  Claim C1. At the steering vector of two antennas at the angle 0, \<open>snr = 1/2\<close> (a noise
  scale of 1) and the draws 1, -1, 1, -1, ..., the observation vector of the claim is
  \<open>(2, 0)\<close> at every instant and the average of the outer products is \<open>[[4, 0], [0, 0]]\<close>.
  \<open>sample_cov\<close> adds the column of shape \<open>(2, 1)\<close> and the noise of shape \<open>(2,)\<close>, which
  numpy broadcasts to the array \<open>[[2, 0], [2, 0]]\<close> of shape \<open>(2, 2)\<close>, and returns
  \<open>[[4, 4], [4, 4]]\<close>.
\<close>

theorem sample_cov_broadcasts_noise:
  "(\<exists>M. fst (sample_cov alternating_noise (response_vec 2 0 (3 / 50)) (1 / 2)) = Inr (Cov M)
        \<and> rows_of M = [[4, 4], [4, 4]]) \<and>
   rows_of (spec_estimate_covariance alternating_noise (response_vec 2 0 (3 / 50)) (1 / 2))
     = [[4, 0], [0, 0]]"
  using code_at_alternating spec_at_alternating by simp

theorem sample_cov_hermitian_psd_witness:
  "0 < (1 / 2 :: real) \<and>
   (\<exists>M. fst (sample_cov alternating_noise [1, 1] (1 / 2)) = Inr (Cov M) \<and> nrows M = 2 \<and> ncols M = 2
        \<and> hermitian M \<and> positive_semidefinite M)"
  using sample_cov_hermitian_psd [of "1 / 2" alternating_noise "[1, 1]"]
  by (simp add: numeral_2_eq_2)

theorem sample_cov_reads_next_draws_witness:
  "fst (sample_cov late_noise [1, 1] (1 / 2)) = fst (sample_cov (\<lambda>i. 0) [1, 1] (1 / 2)) \<and>
   snd (sample_cov late_noise [1, 1] (1 / 2)) = (\<lambda>i. late_noise (i + 100))"
proof -
  have h: "\<forall>i<CTE_SAMPLES * length [1, 1 :: complex]. late_noise i = (\<lambda>i. 0) i"
    by (simp add: CTE_SAMPLES_def late_noise_def)
  from sample_cov_reads_next_draws [OF h, of "1 / 2"] show ?thesis
    by (simp add: CTE_SAMPLES_def)
qed

subsection \<open>Facts about the MUSIC spectrum estimator\<close>


lemma linspace_nth:
  assumes "1 < n" and "i < n"
  shows "linspace a b n ! i = a + real i * ((b - a) / real (n - 1))"
proof (cases "i = n - 1")
  case True
  with assms show ?thesis by (simp add: linspace_def Let_def)
next
  case False
  with assms show ?thesis by (simp add: linspace_def Let_def)
qed

lemma search_angles_nth:
  assumes "i < 360"
  shows "linspace (- MAX_SEARCH_ANGLE) MAX_SEARCH_ANGLE NUM_ANGLES_TO_SEARCH ! i
         = - 90 + real i * (180 / 359)"
  using assms by (simp add: linspace_nth NUM_ANGLES_TO_SEARCH_def MAX_SEARCH_ANGLE_def)

text \<open>
  Claim C9. Whenever the eigen-decomposition returns (the covariance is square and holds
  no nan, and the routine does not fail), \<open>music\<close> returns the search grid and the
  pseudo-spectrum: the grid is \<open>np.linspace(-90, 90, 360)\<close>, whatever the covariance, that
  is 360 angles from -90 to 90 degrees in steps of 180/359; the spectrum has the length of
  the grid and its element \<open>i\<close> is the pseudo-power at the grid angle \<open>i\<close>.
\<close>

theorem music_search_grid:
  assumes "np_linalg_eig eig covariance = Inr (w, v)"
  shows "\<exists>grid spectrum.
           music eig covariance d = Inr (grid, spectrum) \<and>
           grid = linspace (- 90) 90 360 \<and>
           length grid = 360 \<and> grid ! 0 = - 90 \<and> grid ! 359 = 90 \<and>
           (\<forall>i<360. grid ! i = - 90 + real i * (180 / 359)) \<and>
           length spectrum = length grid \<and>
           (\<forall>i<360. spectrum ! i =
               pseudo_power (noise_subspace v (shape0 covariance)) (shape0 covariance) d (grid ! i))"
  using assms search_angles_nth
  by (simp add: music_def Let_def length_linspace NUM_ANGLES_TO_SEARCH_def MAX_SEARCH_ANGLE_def)



lemma eig_diag_1_5:
  "np_linalg_eig (eig_of_diagonal [1, 5]) (Cov (diag_matrix [1, 5])) = Inr ([1, 5], identity_matrix 2)"
  by (simp add: np_linalg_eig_def eig_of_diagonal_def diag_matrix_def identity_matrix_def)


text \<open>
  Claim C2. On the Hermitian covariance \<open>diag(1, 5)\<close> the eigen-decomposition returns the
  eigenvalues \<open>(1, 5)\<close> with the columns of the identity as eigenvectors (a valid
  decomposition: \<open>A V = V diag(w)\<close>). \<open>music\<close> drops the eigenvalues and takes the
  columns from \<open>NUM_SOURCES\<close> on, in the order the routine returned them: its noise
  subspace is the eigenvector \<open>(0, 1)\<close> of the largest eigenvalue 5. Sorting by
  eigenvalue first, as the claim has it, gives the eigenvector \<open>(1, 0)\<close> of the smallest
  eigenvalue 1.
\<close>

theorem music_noise_subspace_unsorted:
  "np_linalg_eig (eig_of_diagonal [1, 5]) (Cov (diag_matrix [1, 5])) = Inr ([1, 5], identity_matrix 2) \<and>
   rows_of (matmul (diag_matrix [1, 5]) (identity_matrix 2))
     = rows_of (matmul (identity_matrix 2) (diag_matrix [1, 5])) \<and>
   rows_of (noise_subspace (identity_matrix 2) 2) = [[0], [1]] \<and>
   rows_of (matmul (diag_matrix [1, 5]) (noise_subspace (identity_matrix 2) 2)) = [[0], [5]] \<and>
   rows_of (spec_noise_subspace [1, 5] (identity_matrix 2) NUM_SOURCES) = [[1], [0]]"
proof (intro conjI)
  show "np_linalg_eig (eig_of_diagonal [1, 5]) (Cov (diag_matrix [1, 5]))
          = Inr ([1, 5], identity_matrix 2)"
    by (rule eig_diag_1_5)
  show "rows_of (matmul (diag_matrix [1, 5]) (identity_matrix 2))
          = rows_of (matmul (identity_matrix 2) (diag_matrix [1, 5]))"
    by (simp add: rows_of_def matmul_def diag_matrix_def identity_matrix_def numeral_2_eq_2)
  show "rows_of (noise_subspace (identity_matrix 2) 2) = [[0], [1]]"
    by (simp add: rows_of_def identity_matrix_def noise_subspace_def column_slice_def
        NUM_SOURCES_def numeral_2_eq_2)
  show "rows_of (matmul (diag_matrix [1, 5]) (noise_subspace (identity_matrix 2) 2)) = [[0], [5]]"
    by (simp add: rows_of_def matmul_def diag_matrix_def identity_matrix_def noise_subspace_def
        column_slice_def NUM_SOURCES_def numeral_2_eq_2)
  show "rows_of (spec_noise_subspace [1, 5] (identity_matrix 2) NUM_SOURCES) = [[1], [0]]"
    by (simp add: rows_of_def identity_matrix_def spec_noise_subspace_def NUM_SOURCES_def numeral_2_eq_2)
qed

theorem music_search_grid_witness:
  "np_linalg_eig (eig_of_diagonal [1, 5]) (Cov (diag_matrix [1, 5])) = Inr ([1, 5], identity_matrix 2) \<and>
   (\<exists>grid spectrum. music (eig_of_diagonal [1, 5]) (Cov (diag_matrix [1, 5])) (3 / 50) = Inr (grid, spectrum) \<and>
      length grid = 360 \<and> length spectrum = 360 \<and> grid ! 0 = - 90 \<and> grid ! 359 = 90)"
  using music_search_grid [OF eig_diag_1_5, of "3 / 50"] eig_diag_1_5 by auto


subsection \<open>Facts about peak finding\<close>


declare ahead.simps [simp del] local_maxima_from.simps [simp del]

lemma ahead_ge: "a \<le> ahead x i a"
proof (induction x i a rule: ahead.induct)
  case (1 x i a)
  show ?case
  proof (cases "a < length x - 1 \<and> x ! a = x ! i")
    case True
    with 1 have "a + 1 \<le> ahead x i (a + 1)" by simp
    moreover have "ahead x i a = ahead x i (a + 1)"
      using True by (subst ahead.simps) simp
    ultimately show ?thesis by simp
  next
    case False
    then have "ahead x i a = a" by (subst ahead.simps) auto
    then show ?thesis by simp
  qed
qed

lemma ahead_le: "a \<le> length x - 1 \<Longrightarrow> ahead x i a \<le> length x - 1"
proof (induction x i a rule: ahead.induct)
  case (1 x i a)
  show ?case
  proof (cases "a < length x - 1 \<and> x ! a = x ! i")
    case True
    with 1 have "ahead x i (a + 1) \<le> length x - 1" by simp
    moreover have "ahead x i a = ahead x i (a + 1)"
      using True by (subst ahead.simps) simp
    ultimately show ?thesis by simp
  next
    case False
    then have "ahead x i a = a" by (subst ahead.simps) auto
    with 1 show ?thesis by simp
  qed
qed

lemma ahead_equal: "a \<le> k \<Longrightarrow> k < ahead x i a \<Longrightarrow> x ! k = x ! i"
proof (induction x i a rule: ahead.induct)
  case (1 x i a)
  show ?case
  proof (cases "a < length x - 1 \<and> x ! a = x ! i")
    case True
    then have eq: "ahead x i a = ahead x i (a + 1)"
      by (subst ahead.simps) simp
    show ?thesis
    proof (cases "k = a")
      case True
      with \<open>a < length x - 1 \<and> x ! a = x ! i\<close> show ?thesis by simp
    next
      case False
      with 1 True eq show ?thesis by simp
    qed
  next
    case False
    then have "ahead x i a = a" by (subst ahead.simps) auto
    with 1 show ?thesis by simp
  qed
qed

lemma ahead_stops: "ahead x i a < length x - 1 \<Longrightarrow> x ! (ahead x i a) \<noteq> x ! i"
proof (induction x i a rule: ahead.induct)
  case (1 x i a)
  show ?case
  proof (cases "a < length x - 1 \<and> x ! a = x ! i")
    case True
    then have eq: "ahead x i a = ahead x i (a + 1)"
      by (subst ahead.simps) simp
    with 1 True show ?thesis by simp
  next
    case False
    then have "ahead x i a = a" by (subst ahead.simps) auto
    with 1 False show ?thesis by simp
  qed
qed

lemma run_equal:
  assumes "i \<le> k" and "k < ahead x i (i + 1)"
  shows "x ! k = x ! i"
proof (cases "k = i")
  case True
  then show ?thesis by simp
next
  case False
  with assms have "i + 1 \<le> k" by simp
  then show ?thesis using assms(2) by (rule ahead_equal)
qed

lemma peak_at_left_edge:
  assumes "1 \<le> i" and "i < length x - 1" and "x ! (i - 1) < x ! i"
  shows "plateau_peak x i r \<longleftrightarrow>
           r = ahead x i (i + 1) - 1 \<and> x ! (ahead x i (i + 1)) < x ! i"
proof -
  let ?a = "ahead x i (i + 1)"
  have ge: "i + 1 \<le> ?a" by (rule ahead_ge)
  have le: "?a \<le> length x - 1" using assms(2) by (intro ahead_le) simp
  show ?thesis
  proof
    assume p: "plateau_peak x i r"
    have r1: "i \<le> r" using p unfolding plateau_peak_def by blast
    have r2: "r + 1 < length x" using p unfolding plateau_peak_def by blast
    have r3: "x ! (r + 1) < x ! i" using p unfolding plateau_peak_def by blast
    have all: "\<forall>k. i \<le> k \<and> k \<le> r \<longrightarrow> x ! k = x ! i"
      using p unfolding plateau_peak_def by blast
    have "\<not> r + 1 < ?a"
    proof
      assume "r + 1 < ?a"
      moreover have "i \<le> r + 1" using r1 by simp
      ultimately have "x ! (r + 1) = x ! i" by (rule run_equal [rotated])
      with r3 show False by simp
    qed
    moreover have "\<not> ?a \<le> r"
    proof
      assume ar: "?a \<le> r"
      have "i \<le> ?a" using ge by simp
      with ar all have "x ! ?a = x ! i" by blast
      moreover have "?a < length x - 1" using ar r2 by simp
      then have "x ! ?a \<noteq> x ! i" by (rule ahead_stops)
      ultimately show False by simp
    qed
    ultimately have "r + 1 = ?a" by simp
    then have "r = ?a - 1" by simp
    moreover have "x ! ?a < x ! i" using r3 \<open>r + 1 = ?a\<close> by simp
    ultimately show "r = ?a - 1 \<and> x ! ?a < x ! i" by simp
  next
    assume h: "r = ?a - 1 \<and> x ! ?a < x ! i"
    then have ra: "r + 1 = ?a" using ge by simp
    show "plateau_peak x i r"
      unfolding plateau_peak_def
    proof (intro conjI allI impI)
      show "1 \<le> i" by (rule assms(1))
      show "i \<le> r" using ra ge by simp
      show "r + 1 < length x" using ra le assms(2) by simp
      show "x ! (i - 1) < x ! i" by (rule assms(3))
      show "x ! (r + 1) < x ! i" using h ra by simp
    next
      fix k assume "i \<le> k \<and> k \<le> r"
      then have "i \<le> k" and "k < ?a" using ra by simp_all
      then show "x ! k = x ! i" by (rule run_equal)
    qed
  qed
qed

lemma no_peak_inside_run:
  assumes "i < l" and "l \<le> ahead x i (i + 1)" and "x ! (ahead x i (i + 1)) < x ! i"
  shows "\<not> plateau_peak x l r"
proof
  let ?a = "ahead x i (i + 1)"
  assume "plateau_peak x l r"
  then have up: "x ! (l - 1) < x ! l" unfolding plateau_peak_def by blast
  have before: "x ! (l - 1) = x ! i"
    using assms(1,2) by (intro run_equal) simp_all
  show False
  proof (cases "l = ?a")
    case True
    with up before assms(3) show ?thesis by simp
  next
    case False
    with assms(2) have "l < ?a" by simp
    then have "x ! l = x ! i" using assms(1) by (intro run_equal) simp_all
    with up before show ?thesis by simp
  qed
qed

lemma plateau_peak_bounds:
  assumes "plateau_peak x l r"
  shows "1 \<le> l" and "l \<le> r" and "r + 1 < length x"
  using assms unfolding plateau_peak_def by blast+

lemma peaks_from_none:
  assumes "\<not> i < length x - 1"
  shows "peaks_from x i = {}"
proof -
  have "\<not> (i \<le> l \<and> plateau_peak x l r)" for l r
  proof
    assume h: "i \<le> l \<and> plateau_peak x l r"
    then have "plateau_peak x l r" by simp
    then have "l \<le> r" and "r + 1 < length x"
      by (rule plateau_peak_bounds)+
    moreover have "i \<le> l" using h by simp
    ultimately show False using assms by linarith
  qed
  then have "{(l, r). i \<le> l \<and> plateau_peak x l r} = {}" by simp
  then show ?thesis by (simp only: peaks_from_def image_empty)
qed

lemma peaks_from_skip:
  assumes "\<And>r. \<not> plateau_peak x i r"
  shows "peaks_from x i = peaks_from x (i + 1)"
proof -
  have "i \<le> l \<and> plateau_peak x l r \<longleftrightarrow> i + 1 \<le> l \<and> plateau_peak x l r" for l r
    using assms by (cases "l = i") auto
  then have "{(l, r). i \<le> l \<and> plateau_peak x l r} = {(l, r). i + 1 \<le> l \<and> plateau_peak x l r}"
    by simp
  then show ?thesis by (simp only: peaks_from_def)
qed


lemma peaks_from_found:
  assumes "1 \<le> i" and "i < length x - 1" and "x ! (i - 1) < x ! i"
    and "x ! (ahead x i (i + 1)) < x ! i"
  shows "peaks_from x i =
           insert ((i + (ahead x i (i + 1) - 1)) div 2) (peaks_from x (ahead x i (i + 1) + 1))"
proof -
  let ?a = "ahead x i (i + 1)"
  have ge: "i + 1 \<le> ?a" by (rule ahead_ge)
  have here: "plateau_peak x i r \<longleftrightarrow> r = ?a - 1" for r
    using peak_at_left_edge [OF assms(1-3)] assms(4) by simp
  have inside: "\<not> plateau_peak x l r" if "i < l" "l \<le> ?a" for l r
    using that assms(4) by (rule no_peak_inside_run)
  have split: "i \<le> l \<and> plateau_peak x l r \<longleftrightarrow>
           (l, r) = (i, ?a - 1) \<or> (?a + 1 \<le> l \<and> plateau_peak x l r)" for l r
  proof (cases "l = i")
    case True
    then show ?thesis using here ge inside by auto
  next
    case False
    show ?thesis
    proof (cases "l \<le> ?a")
      case True
      with False inside [of l r] ge show ?thesis by auto
    next
      case False
      with ge show ?thesis by auto
    qed
  qed
  have "{(l, r). i \<le> l \<and> plateau_peak x l r}
          = insert (i, ?a - 1) {(l, r). ?a + 1 \<le> l \<and> plateau_peak x l r}"
    unfolding split by blast
  then show ?thesis by (simp only: peaks_from_def image_insert prod.case)
qed


lemma local_maxima_from_set_sorted:
  assumes "1 \<le> i"
  shows "set (local_maxima_from x i) = peaks_from x i \<and>
         sorted_wrt (<) (local_maxima_from x i) \<and>
         (\<forall>m \<in> set (local_maxima_from x i). i \<le> m)"
  using assms
proof (induction x i rule: local_maxima_from.induct)
  case (1 x i)
  let ?a = "ahead x i (i + 1)"
  have ge: "i + 1 \<le> ?a" by (rule ahead_ge)
  have skip: ?case
    if eq: "local_maxima_from x i = local_maxima_from x (i + 1)"
      and none: "\<And>r. \<not> plateau_peak x i r"
      and ih: "set (local_maxima_from x (i + 1)) = peaks_from x (i + 1) \<and>
         sorted_wrt (<) (local_maxima_from x (i + 1)) \<and>
         (\<forall>m \<in> set (local_maxima_from x (i + 1)). i + 1 \<le> m)"
  proof (intro conjI ballI)
    show "set (local_maxima_from x i) = peaks_from x i"
      using ih peaks_from_skip [of x i, OF none] by (simp add: eq)
    show "sorted_wrt (<) (local_maxima_from x i)"
      using ih by (simp add: eq)
    fix m assume "m \<in> set (local_maxima_from x i)"
    then have "i + 1 \<le> m" using ih by (simp add: eq)
    then show "i \<le> m" by simp
  qed
  show ?case
  proof (cases "i < length x - 1")
    case False
    then have "local_maxima_from x i = []"
      by (subst local_maxima_from.simps) simp
    with False show ?thesis by (simp add: peaks_from_none)
  next
    case inner: True
    show ?thesis
    proof (cases "x ! (i - 1) < x ! i")
      case False
      then have eq: "local_maxima_from x i = local_maxima_from x (i + 1)"
        using inner by (subst local_maxima_from.simps) simp
      have none: "\<not> plateau_peak x i r" for r
        unfolding plateau_peak_def using False by blast
      have "set (local_maxima_from x (i + 1)) = peaks_from x (i + 1) \<and>
         sorted_wrt (<) (local_maxima_from x (i + 1)) \<and>
         (\<forall>m \<in> set (local_maxima_from x (i + 1)). i + 1 \<le> m)"
        using "1.IH"(3) inner False by simp
      with eq none show ?thesis by (rule skip)
    next
      case up: True
      show ?thesis
      proof (cases "x ! ?a < x ! i")
        case False
        then have eq: "local_maxima_from x i = local_maxima_from x (i + 1)"
          using inner up by (subst local_maxima_from.simps) (simp add: Let_def)
        have none: "\<not> plateau_peak x i r" for r
          using peak_at_left_edge [OF "1.prems" inner up] False by simp
        have "set (local_maxima_from x (i + 1)) = peaks_from x (i + 1) \<and>
           sorted_wrt (<) (local_maxima_from x (i + 1)) \<and>
           (\<forall>m \<in> set (local_maxima_from x (i + 1)). i + 1 \<le> m)"
          using "1.IH"(2) [OF inner up refl False] by simp
        with eq none show ?thesis by (rule skip)
      next
        case found: True
        let ?m = "(i + (?a - 1)) div 2"
        have eq: "local_maxima_from x i = ?m # local_maxima_from x (?a + 1)"
          using inner up found by (subst local_maxima_from.simps) (simp add: Let_def)
        have ih: "set (local_maxima_from x (?a + 1)) = peaks_from x (?a + 1)"
          "sorted_wrt (<) (local_maxima_from x (?a + 1))"
          "\<And>m. m \<in> set (local_maxima_from x (?a + 1)) \<Longrightarrow> ?a + 1 \<le> m"
          using "1.IH"(1) [OF inner up refl found] by simp_all
        have mid: "i \<le> ?m" "?m < ?a + 1"
          using ge by simp_all
        have pf: "peaks_from x i = insert ?m (peaks_from x (?a + 1))"
          using "1.prems" inner up found by (rule peaks_from_found)
        show ?thesis
        proof (intro conjI ballI)
          show "set (local_maxima_from x i) = peaks_from x i"
            using ih(1) by (simp add: eq pf)
          have "?m < y" if "y \<in> set (local_maxima_from x (?a + 1))" for y
          proof -
            have "?a + 1 \<le> y" using that by (rule ih(3))
            with mid(2) show ?thesis by (rule less_le_trans)
          qed
          then show "sorted_wrt (<) (local_maxima_from x i)"
            using ih(2) by (simp add: eq)
          fix m assume "m \<in> set (local_maxima_from x i)"
          then have "m = ?m \<or> m \<in> set (local_maxima_from x (?a + 1))"
            by (simp add: eq)
          then have "m = ?m \<or> ?a + 1 \<le> m" using ih(3) by blast
          with mid(1) ge show "i \<le> m" by linarith
        qed
      qed
    qed
  qed
qed


lemma peaks_from_as_set:
  "peaks_from x i = {m. \<exists>l r. i \<le> l \<and> plateau_peak x l r \<and> m = (l + r) div 2}"
  unfolding peaks_from_def by auto

lemma local_maxima_1d_set:
  "set (local_maxima_1d x) = {m. \<exists>l r. plateau_peak x l r \<and> m = (l + r) div 2}"
proof -
  have "set (local_maxima_1d x) = peaks_from x 1"
    unfolding local_maxima_1d_def using local_maxima_from_set_sorted [of 1 x] by simp
  also have "\<dots> = {m. \<exists>l r. 1 \<le> l \<and> plateau_peak x l r \<and> m = (l + r) div 2}"
    by (rule peaks_from_as_set)
  also have "\<dots> = {m. \<exists>l r. plateau_peak x l r \<and> m = (l + r) div 2}"
    using plateau_peak_bounds(1) by blast
  finally show ?thesis .
qed

lemma local_maxima_1d_sorted: "sorted_wrt (<) (local_maxima_1d x)"
  unfolding local_maxima_1d_def using local_maxima_from_set_sorted [of 1 x] by simp

lemma local_maxima_1d_interior:
  assumes "m \<in> set (local_maxima_1d x)"
  shows "1 \<le> m \<and> m + 1 < length x"
proof -
  from assms obtain l r where p: "plateau_peak x l r" and m: "m = (l + r) div 2"
    unfolding local_maxima_1d_set by blast
  have "1 \<le> l" "l \<le> r" "r + 1 < length x"
    using p by (rule plateau_peak_bounds)+
  with m show ?thesis by auto
qed

lemma find_peaks_set:
  "set (find_peaks x h) = {m. \<exists>l r. plateau_peak x l r \<and> m = (l + r) div 2 \<and> h \<le> x ! m}"
  unfolding find_peaks_def set_filter local_maxima_1d_set by blast

lemma find_peaks_sorted: "sorted_wrt (<) (find_peaks x h)"
  unfolding find_peaks_def by (rule sorted_wrt_filter) (rule local_maxima_1d_sorted)

lemma find_peaks_interior:
  assumes "m \<in> set (find_peaks x h)"
  shows "1 \<le> m \<and> m + 1 < length x"
  using assms local_maxima_1d_interior [of m x] by (simp add: find_peaks_def)

lemma single_point_peak:
  assumes "1 \<le> i" and "i + 1 < length x" and "x ! (i - 1) < x ! i" and "x ! (i + 1) < x ! i"
  shows "plateau_peak x i i"
  unfolding plateau_peak_def using assms by auto

lemma extract_angles_sorted:
  assumes "sorted_wrt (<) grid" and "length x \<le> length grid"
  shows "sorted_wrt (<) (extract_angles grid x h)"
proof -
  have "grid ! a < grid ! b"
    if "a \<in> set (find_peaks x h)" "b \<in> set (find_peaks x h)" "a < b" for a b
  proof -
    have "b < length grid"
      using find_peaks_interior [OF that(2)] assms(2) by simp
    with assms(1) that(3) show ?thesis by (simp add: sorted_wrt_nth_less)
  qed
  then have "sorted_wrt (\<lambda>a b. grid ! a < grid ! b) (find_peaks x h)"
    using find_peaks_sorted [of x h] by (rule sorted_wrt_mono_rel)
  then show ?thesis by (simp add: extract_angles_def sorted_wrt_map)
qed

text \<open>
  Claim C3, as amended. \<open>find_peaks\<close> is applied to the powers themselves, with
  \<open>height=1\<close>; the decibel values are only plotted. The angles reported are the grid
  angles at the peaks, in ascending order of index, and so of angle on a grid that
  ascends. The peaks are exactly the indices \<open>m\<close> for which there is a run \<open>l, ..., r\<close> of
  equal powers, away from both ends of the spectrum and higher than the samples before and
  after it, with \<open>m\<close> its middle rounded down and a power of at least 1 at \<open>m\<close>. In
  particular every interior point that is greater than both its neighbours and has a power
  of at least 1 is reported, and no boundary point is.
\<close>

theorem extract_angles_reports_peaks:
  "extract_angles grid x h = map (\<lambda>peak. grid ! peak) (find_peaks x h) \<and>
   sorted_wrt (<) (find_peaks x h) \<and>
   set (find_peaks x h) = {m. \<exists>l r. plateau_peak x l r \<and> m = (l + r) div 2 \<and> h \<le> x ! m} \<and>
   (\<forall>i. 1 \<le> i \<and> i + 1 < length x \<and> x ! (i - 1) < x ! i \<and> x ! (i + 1) < x ! i \<and> h \<le> x ! i
        \<longrightarrow> i \<in> set (find_peaks x h)) \<and>
   (\<forall>m \<in> set (find_peaks x h). 1 \<le> m \<and> m + 1 < length x) \<and>
   (sorted_wrt (<) grid \<and> length x \<le> length grid \<longrightarrow> sorted_wrt (<) (extract_angles grid x h))"
proof -
  have 1: "extract_angles grid x h = map (\<lambda>peak. grid ! peak) (find_peaks x h)"
    by (simp add: extract_angles_def)
  have 2: "sorted_wrt (<) (find_peaks x h)"
    by (rule find_peaks_sorted)
  have 3: "set (find_peaks x h) = {m. \<exists>l r. plateau_peak x l r \<and> m = (l + r) div 2 \<and> h \<le> x ! m}"
    by (rule find_peaks_set)
  have 4: "i \<in> set (find_peaks x h)"
    if h: "1 \<le> i \<and> i + 1 < length x \<and> x ! (i - 1) < x ! i \<and> x ! (i + 1) < x ! i \<and> h \<le> x ! i"
    for i
  proof -
    have "plateau_peak x i i" using h by (intro single_point_peak) simp_all
    moreover have "i = (i + i) div 2" by simp
    ultimately show ?thesis
      unfolding find_peaks_set using h by blast
  qed
  have 5: "\<forall>m \<in> set (find_peaks x h). 1 \<le> m \<and> m + 1 < length x"
    using find_peaks_interior by blast
  have 6: "sorted_wrt (<) grid \<and> length x \<le> length grid \<longrightarrow>
           sorted_wrt (<) (extract_angles grid x h)"
    by (simp add: extract_angles_sorted)
  from 1 2 3 4 5 6 show ?thesis by blast
qed




lemma length_low_peak_spectrum: "length low_peak_spectrum = 360"
  by (simp add: low_peak_spectrum_def NUM_ANGLES_TO_SEARCH_def)

lemma low_peak_spectrum_nth:
  assumes "i < 360"
  shows "low_peak_spectrum ! i = (if i = 1 then 1 else 1 / 2)"
  using assms by (simp add: low_peak_spectrum_def NUM_ANGLES_TO_SEARCH_def nth_list_update)

lemma low_peak_spectrum_peak: "plateau_peak low_peak_spectrum l r \<longleftrightarrow> l = 1 \<and> r = 1"
proof
  assume p: "plateau_peak low_peak_spectrum l r"
  have b: "1 \<le> l" "l \<le> r" "r + 1 < length low_peak_spectrum"
    using p by (rule plateau_peak_bounds)+
  then have r: "r + 1 < 360" by (simp add: length_low_peak_spectrum)
  have up: "low_peak_spectrum ! (l - 1) < low_peak_spectrum ! l"
    using p unfolding plateau_peak_def by blast
  have all: "\<forall>k. l \<le> k \<and> k \<le> r \<longrightarrow> low_peak_spectrum ! k = low_peak_spectrum ! l"
    using p unfolding plateau_peak_def by blast
  have l: "l = 1"
  proof (rule ccontr)
    assume "l \<noteq> 1"
    then have "low_peak_spectrum ! l = 1 / 2"
      using b(2) r by (simp add: low_peak_spectrum_nth)
    moreover have "1 / 2 \<le> low_peak_spectrum ! (l - 1)"
      using b(2) r by (simp add: low_peak_spectrum_nth)
    ultimately show False using up by simp
  qed
  have "r = 1"
  proof (rule ccontr)
    assume "r \<noteq> 1"
    with l b(2) have "l \<le> 2 \<and> 2 \<le> r" by simp
    with all have "low_peak_spectrum ! 2 = low_peak_spectrum ! l" by blast
    then show False using l by (simp add: low_peak_spectrum_nth)
  qed
  with l show "l = 1 \<and> r = 1" by simp
next
  assume "l = 1 \<and> r = 1"
  moreover have "plateau_peak low_peak_spectrum 1 1"
    by (rule single_point_peak) (simp_all add: length_low_peak_spectrum low_peak_spectrum_nth)
  ultimately show "plateau_peak low_peak_spectrum l r" by simp
qed

lemma sorted_singleton:
  fixes xs :: "nat list"
  assumes "sorted_wrt (<) xs" and "set xs = {a}"
  shows "xs = [a]"
proof (cases xs)
  case Nil
  with assms(2) show ?thesis by simp
next
  case (Cons y ys)
  with assms(2) have y: "y = a" and ys: "set ys \<subseteq> {a}" by auto
  have "ys = []"
  proof (rule ccontr)
    assume "ys \<noteq> []"
    then obtain z where z: "z \<in> set ys" by (cases ys) auto
    with ys have "z = a" by auto
    moreover have "y < z" using assms(1) Cons z by simp
    ultimately show False using y by simp
  qed
  with Cons y show ?thesis by simp
qed

lemma find_peaks_low_peak_spectrum: "find_peaks low_peak_spectrum 1 = [1]"
proof -
  have "set (find_peaks low_peak_spectrum 1) = {1}"
    unfolding find_peaks_set low_peak_spectrum_peak
    by (auto simp add: low_peak_spectrum_nth)
  with find_peaks_sorted show ?thesis by (rule sorted_singleton)
qed

lemma code_at_low_peak_spectrum:
  "extract_angles (linspace (- 90) 90 360) low_peak_spectrum 1 = [- 90 + 180 / 359]"
  by (simp add: extract_angles_def find_peaks_low_peak_spectrum linspace_nth)

lemma spec_at_low_peak_spectrum:
  "spec_extract_angles (linspace (- 90) 90 360) low_peak_spectrum 1 = []"
proof -
  let ?db = "map (\<lambda>power. 20 * log 10 power) low_peak_spectrum"
  have neg: "log 10 (1 / 2) < (0::real)" by simp
  have "\<not> (?db ! (i - 1) < ?db ! i \<and> ?db ! (i + 1) < ?db ! i \<and> 1 < ?db ! i)"
    if "i \<in> set [1..<length ?db - 1]" for i
  proof -
    have i: "1 \<le> i" "i < 359" using that by (simp_all add: length_low_peak_spectrum)
    show ?thesis
    proof (cases "i = 1")
      case True
      then show ?thesis by (simp add: length_low_peak_spectrum low_peak_spectrum_nth)
    next
      case False
      then have "?db ! i = 20 * log 10 (1 / 2)"
        using i by (simp add: length_low_peak_spectrum low_peak_spectrum_nth)
      moreover have "20 * log 10 (1 / 2) \<le> ?db ! (i - 1)"
        using i neg by (simp add: length_low_peak_spectrum low_peak_spectrum_nth)
      ultimately show ?thesis by simp
    qed
  qed
  then have "filter (\<lambda>i. ?db ! (i - 1) < ?db ! i \<and> ?db ! (i + 1) < ?db ! i \<and> 1 < ?db ! i)
                [1..<length ?db - 1] = []"
    by (simp only: filter_empty_conv) blast
  then show ?thesis
    by (simp only: spec_extract_angles_def Let_def list.map)
qed

text \<open>
  Claim C3 as stated fails. On the search grid, take the power 1 at index 1 and 1/2
  elsewhere: the point at index 1 is greater than both neighbours, and its decibel value
  \<open>20 * log10(1) = 0\<close> does not exceed the threshold of 1 dB, so the claim reports no
  angle. \<open>find_peaks(signal_powers, height=1)\<close> compares the power itself with 1 and
  reports the angle at index 1.
\<close>

theorem extract_angles_threshold_on_power:
  "extract_angles (linspace (- 90) 90 360) low_peak_spectrum 1 = [- 90 + 180 / 359] \<and>
   spec_extract_angles (linspace (- 90) 90 360) low_peak_spectrum 1 = []"
  using code_at_low_peak_spectrum spec_at_low_peak_spectrum by simp


lemma linspace_ascending:
  assumes "a < b"
  shows "sorted_wrt (<) (linspace a b n)"
proof (cases "1 < n")
  case False
  then have "n = 0 \<or> n = 1" by auto
  then show ?thesis by (auto simp add: linspace_def)
next
  case True
  have step: "0 < (b - a) / real (n - 1)" using assms True by simp
  have "linspace a b n ! i < linspace a b n ! j" if "i < j" "j < length (linspace a b n)" for i j
  proof -
    have j: "j < n" using that(2) by (simp add: length_linspace)
    with that(1) have i: "i < n" by simp
    have "real i < real j" using that(1) by simp
    then have "real i * ((b - a) / real (n - 1)) < real j * ((b - a) / real (n - 1))"
      using step by (rule mult_strict_right_mono)
    then show ?thesis using True i j by (simp add: linspace_nth)
  qed
  then show ?thesis by (simp add: sorted_wrt_iff_nth_less)
qed

theorem extract_angles_reports_peaks_witness:
  "1 \<in> set (find_peaks low_peak_spectrum 1) \<and>
   sorted_wrt (<) (extract_angles (linspace (- 90) 90 360) low_peak_spectrum 1)"
proof -
  have h1: "(1::nat) \<le> 1 \<and> 1 + 1 < length low_peak_spectrum \<and>
        low_peak_spectrum ! (1 - 1) < low_peak_spectrum ! 1 \<and>
        low_peak_spectrum ! (1 + 1) < low_peak_spectrum ! 1 \<and> 1 \<le> low_peak_spectrum ! 1"
    by (simp add: length_low_peak_spectrum low_peak_spectrum_nth)
  have h2: "sorted_wrt (<) (linspace (- 90) 90 360) \<and>
        length low_peak_spectrum \<le> length (linspace (- 90) 90 360)"
    by (simp add: linspace_ascending length_linspace length_low_peak_spectrum)
  from extract_angles_reports_peaks [of "linspace (- 90) 90 360" low_peak_spectrum 1] h1 h2
  show ?thesis by blast
qed

subsection \<open>Facts about the pipeline\<close>

lemma pseudo_power_no_noise_columns:
  assumes "ncols E = 0"
  shows "pseudo_power E n d a = CInfNan"
  using assms by (simp add: pseudo_power_def Let_def item_def matmul_def conjugate_T_def)

lemma noise_subspace_single_antenna:
  assumes "n \<le> 1"
  shows "ncols (noise_subspace \<lparr>nrows = n, ncols = n, entry = v\<rparr> n) = 0"
  using assms by (simp add: noise_subspace_def column_slice_def Let_def NUM_SOURCES_def)

lemma find_peaks_constant: "find_peaks (map (\<lambda>a. c) xs) h = []"
proof -
  have "\<not> plateau_peak (map (\<lambda>a. c) xs) l r" for l r
  proof
    assume p: "plateau_peak (map (\<lambda>a. c) xs) l r"
    have b: "1 \<le> l" "l \<le> r" "r + 1 < length (map (\<lambda>a. c) xs)"
      using p by (rule plateau_peak_bounds)+
    have "map (\<lambda>a. c) xs ! (l - 1) < map (\<lambda>a. c) xs ! l"
      using p unfolding plateau_peak_def by blast
    with b show False by simp
  qed
  then have "set (find_peaks (map (\<lambda>a. c) xs) h) = {}"
    unfolding find_peaks_set by blast
  then show ?thesis by simp
qed

lemma music_returns:
  assumes "eig A = Inr (w, v)" and "nrows A = ncols A"
  shows "music eig (Cov A) d =
     Inr (linspace (- MAX_SEARCH_ANGLE) MAX_SEARCH_ANGLE NUM_ANGLES_TO_SEARCH,
          map (pseudo_power (noise_subspace \<lparr>nrows = nrows A, ncols = ncols A, entry = v\<rparr> (nrows A))
                 (nrows A) d)
              (linspace (- MAX_SEARCH_ANGLE) MAX_SEARCH_ANGLE NUM_ANGLES_TO_SEARCH))"
  using assms by (simp add: music_def np_linalg_eig_def shape0_def Let_def)

lemma music_nan: "music eig (NaN_Cov n) d = Inl LinAlgError"
  by (simp add: music_def np_linalg_eig_def)

lemma draw_zero_snr:
  "draw_pseudo_spectrum eig g n a 0 d = (Inl ZeroDivisionError, g)"
  by (simp add: draw_pseudo_spectrum_def Let_def sample_cov_zero)

lemma sample_cov_negative_snr:
  assumes "snr < 0" and "a \<noteq> []"
  shows "sample_cov g a snr = (Inr (NaN_Cov (length a)), \<lambda>i. g (i + CTE_SAMPLES * length a))"
  using assms by (simp add: sample_cov_nonzero)

lemma draw_negative_snr:
  assumes "snr < 0" and "1 \<le> n"
  shows "sample_cov g (response_vec n a (d / 100)) snr
           = (Inr (NaN_Cov (nat n)), \<lambda>i. g (i + CTE_SAMPLES * nat n)) \<and>
         draw_pseudo_spectrum eig g n a snr d
           = (Inl LinAlgError, \<lambda>i. g (i + CTE_SAMPLES * nat n))"
proof -
  let ?r = "response_vec n a (d / 100)"
  have len: "length ?r = nat n" by (rule length_response_vec)
  then have "length ?r \<noteq> 0" using assms(2) by simp
  then have "?r \<noteq> []" by simp
  with assms(1) have s: "sample_cov g ?r snr
      = (Inr (NaN_Cov (nat n)), \<lambda>i. g (i + CTE_SAMPLES * nat n))"
    using sample_cov_negative_snr [of snr ?r g] len by simp
  then have "draw_pseudo_spectrum eig g n a snr d
      = (Inl LinAlgError, \<lambda>i. g (i + CTE_SAMPLES * nat n))"
    by (simp add: draw_pseudo_spectrum_def Let_def music_nan)
  with s show ?thesis by simp
qed

lemma sample_cov_finite_shape:
  assumes "0 < snr \<or> (snr < 0 \<and> a = [])"
  shows "\<exists>M. sample_cov g a snr = (Inr (Cov M), \<lambda>i. g (i + CTE_SAMPLES * length a)) \<and>
             nrows M = length a \<and> ncols M = length a"
proof -
  have "snr \<noteq> 0" using assms by auto
  moreover have "\<not> (snr < 0 \<and> length a \<noteq> 0)" using assms by auto
  ultimately show ?thesis by (simp add: sample_cov_nonzero)
qed

lemma draw_accepts:
  assumes snr: "0 < snr \<or> (snr < 0 \<and> n \<le> 0)"
    and ok: "\<forall>A. nrows A = nat n \<and> ncols A = nat n \<longrightarrow> (\<exists>r. eig A = Inr r)"
  shows "\<exists>angles. draw_pseudo_spectrum eig g n a snr d
                    = (Inr angles, \<lambda>i. g (i + CTE_SAMPLES * nat n)) \<and>
                  (n \<le> 1 \<longrightarrow> angles = [])"
proof -
  let ?r = "response_vec n a (d / 100)"
  have len: "length ?r = nat n" by (rule length_response_vec)
  have "0 < snr \<or> (snr < 0 \<and> ?r = [])"
  proof (cases "0 < snr")
    case True
    then show ?thesis by simp
  next
    case False
    with snr have "snr < 0" and "n \<le> 0" by simp_all
    with len have "length ?r = 0" by simp
    with \<open>snr < 0\<close> show ?thesis by simp
  qed
  then obtain M where s: "sample_cov g ?r snr = (Inr (Cov M), \<lambda>i. g (i + CTE_SAMPLES * length ?r))"
    and shape: "nrows M = length ?r" "ncols M = length ?r"
    using sample_cov_finite_shape [of snr ?r g] by blast
  let ?G = "linspace (- MAX_SEARCH_ANGLE) MAX_SEARCH_ANGLE NUM_ANGLES_TO_SEARCH"
  have "\<exists>r. eig M = Inr r" using ok shape len by simp
  then obtain w v where e: "eig M = Inr (w, v)" by (metis surj_pair)
  define E where "E = noise_subspace \<lparr>nrows = nrows M, ncols = ncols M, entry = v\<rparr> (nrows M)"
  have m: "music eig (Cov M) (d / 100) = Inr (?G, map (pseudo_power E (nrows M) (d / 100)) ?G)"
    unfolding E_def using e by (rule music_returns) (simp add: shape)
  have d: "draw_pseudo_spectrum eig g n a snr d =
      (Inr (extract_angles ?G (map np_real (map (pseudo_power E (nrows M) (d / 100)) ?G)) (RNum 1)),
       \<lambda>i. g (i + CTE_SAMPLES * nat n))"
    using len by (simp add: draw_pseudo_spectrum_def Let_def s m)
  have "extract_angles ?G (map np_real (map (pseudo_power E (nrows M) (d / 100)) ?G)) (RNum 1) = []"
    if "n \<le> 1"
  proof -
    have "nrows M \<le> 1" using that len shape by simp
    then have "ncols E = 0"
      unfolding E_def shape(2) shape(1) [symmetric] by (rule noise_subspace_single_antenna)
    then show ?thesis
      by (simp add: pseudo_power_no_noise_columns extract_angles_def find_peaks_constant comp_def)
  qed
  with d show ?thesis by auto
qed

lemma draw_fails_iff:
  assumes ok: "\<forall>A. nrows A = nat n \<and> ncols A = nat n \<longrightarrow> (\<exists>r. eig A = Inr r)"
  shows "(\<exists>e. fst (draw_pseudo_spectrum eig g n a snr d) = Inl e)
           \<longleftrightarrow> snr = 0 \<or> (snr < 0 \<and> 1 \<le> n)"
proof (cases "snr = 0 \<or> (snr < 0 \<and> 1 \<le> n)")
  case True
  then have "\<exists>e. fst (draw_pseudo_spectrum eig g n a snr d) = Inl e"
  proof
    assume "snr = 0"
    then show ?thesis by (simp add: draw_zero_snr)
  next
    assume "snr < 0 \<and> 1 \<le> n"
    then show ?thesis using draw_negative_snr [of snr n g a d eig] by simp
  qed
  with True show ?thesis by simp
next
  case False
  then have "0 < snr \<or> (snr < 0 \<and> n \<le> 0)" by auto
  from draw_accepts [OF this ok]
  obtain angles where "draw_pseudo_spectrum eig g n a snr d
      = (Inr angles, \<lambda>i. g (i + CTE_SAMPLES * nat n))" by blast
  then have "\<not> (\<exists>e. fst (draw_pseudo_spectrum eig g n a snr d) = Inl e)" by simp
  with False show ?thesis by simp
qed

lemma draw_error_is_stage_error:
  "fst (draw_pseudo_spectrum eig g n a snr d) = Inl e \<longleftrightarrow>
     fst (sample_cov g (response_vec n a (d / 100)) snr) = Inl e \<or>
     (\<exists>cov. fst (sample_cov g (response_vec n a (d / 100)) snr) = Inr cov \<and>
            music eig cov (d / 100) = Inl e)"
  by (auto simp add: draw_pseudo_spectrum_def Let_def split: prod.splits sum.splits)

text \<open>
  Claim C4, as amended. \<open>draw_pseudo_spectrum\<close> has no configuration error of its own:
  every failure of the pipeline is the failure of \<open>sample_cov\<close> on the steering vector, or
  of \<open>music\<close> on the covariance that \<open>sample_cov\<close> returned. With \<open>snr = 0\<close> it fails
  with the ZeroDivisionError of the division \<open>0.5 / snr\<close>, the generator untouched. With
  \<open>snr < 0\<close> and at least one antenna, \<open>sample_cov\<close> consumes all its \<open>CTE_SAMPLES * N\<close>
  draws and returns the covariance of nan, and the pipeline then fails with the
  LinAlgError of \<open>np.linalg.eig\<close>. Where the eigen-decomposition returns on arrays of
  shape \<open>(N, N)\<close>, no other input fails: with \<open>snr > 0\<close> every antenna count is accepted
  (and so is \<open>snr < 0\<close> with no antenna), the pipeline returns with the generator advanced
  by \<open>CTE_SAMPLES * N\<close> draws for the antenna count \<open>N\<close> it was given, and with fewer than
  two antennas (where \<open>NUM_SOURCES\<close> is not below the antenna count) it reports no angle.
\<close>

theorem draw_pseudo_spectrum_outcomes:
  "(snr = 0 \<longrightarrow> draw_pseudo_spectrum eig g n a snr d = (Inl ZeroDivisionError, g)) \<and>
   (snr < 0 \<and> 1 \<le> n \<longrightarrow>
      sample_cov g (response_vec n a (d / 100)) snr
        = (Inr (NaN_Cov (nat n)), \<lambda>i. g (i + CTE_SAMPLES * nat n)) \<and>
      draw_pseudo_spectrum eig g n a snr d
        = (Inl LinAlgError, \<lambda>i. g (i + CTE_SAMPLES * nat n))) \<and>
   ((0 < snr \<or> (snr < 0 \<and> n \<le> 0)) \<and>
    (\<forall>A. nrows A = nat n \<and> ncols A = nat n \<longrightarrow> (\<exists>r. eig A = Inr r)) \<longrightarrow>
      (\<exists>angles. draw_pseudo_spectrum eig g n a snr d
                  = (Inr angles, \<lambda>i. g (i + CTE_SAMPLES * nat n)) \<and>
                (n \<le> 1 \<longrightarrow> angles = []))) \<and>
   ((\<forall>A. nrows A = nat n \<and> ncols A = nat n \<longrightarrow> (\<exists>r. eig A = Inr r)) \<longrightarrow>
      ((\<exists>e. fst (draw_pseudo_spectrum eig g n a snr d) = Inl e)
         \<longleftrightarrow> snr = 0 \<or> (snr < 0 \<and> 1 \<le> n))) \<and>
   (\<forall>e. fst (draw_pseudo_spectrum eig g n a snr d) = Inl e \<longleftrightarrow>
      fst (sample_cov g (response_vec n a (d / 100)) snr) = Inl e \<or>
      (\<exists>cov. fst (sample_cov g (response_vec n a (d / 100)) snr) = Inr cov \<and>
             music eig cov (d / 100) = Inl e))"
proof -
  have 1: "snr = 0 \<longrightarrow> draw_pseudo_spectrum eig g n a snr d = (Inl ZeroDivisionError, g)"
    by (simp add: draw_zero_snr)
  have 2: "snr < 0 \<and> 1 \<le> n \<longrightarrow>
      sample_cov g (response_vec n a (d / 100)) snr
        = (Inr (NaN_Cov (nat n)), \<lambda>i. g (i + CTE_SAMPLES * nat n)) \<and>
      draw_pseudo_spectrum eig g n a snr d
        = (Inl LinAlgError, \<lambda>i. g (i + CTE_SAMPLES * nat n))"
    using draw_negative_snr [of snr n g a d eig] by blast
  have 3: "(0 < snr \<or> (snr < 0 \<and> n \<le> 0)) \<and>
    (\<forall>A. nrows A = nat n \<and> ncols A = nat n \<longrightarrow> (\<exists>r. eig A = Inr r)) \<longrightarrow>
      (\<exists>angles. draw_pseudo_spectrum eig g n a snr d
                  = (Inr angles, \<lambda>i. g (i + CTE_SAMPLES * nat n)) \<and>
                (n \<le> 1 \<longrightarrow> angles = []))"
    using draw_accepts [of snr n eig g a d] by blast
  have 4: "(\<forall>A. nrows A = nat n \<and> ncols A = nat n \<longrightarrow> (\<exists>r. eig A = Inr r)) \<longrightarrow>
      ((\<exists>e. fst (draw_pseudo_spectrum eig g n a snr d) = Inl e)
         \<longleftrightarrow> snr = 0 \<or> (snr < 0 \<and> 1 \<le> n))"
    using draw_fails_iff [of n eig g a snr d] by blast
  have 5: "\<forall>e. fst (draw_pseudo_spectrum eig g n a snr d) = Inl e \<longleftrightarrow>
      fst (sample_cov g (response_vec n a (d / 100)) snr) = Inl e \<or>
      (\<exists>cov. fst (sample_cov g (response_vec n a (d / 100)) snr) = Inr cov \<and>
             music eig cov (d / 100) = Inl e)"
    using draw_error_is_stage_error [of eig g n a snr d] by blast
  from 1 2 3 4 5 show ?thesis by (intro conjI)
qed

text \<open>
  Claim C4 as stated fails: with one antenna and \<open>snr = 2.5\<close> the pipeline raises nothing
  and returns, with no estimated angle.
\<close>

theorem draw_pseudo_spectrum_single_antenna:
  "fst (draw_pseudo_spectrum eig_of_scalar alternating_noise 1 60 (5 / 2) 6) = Inr []"
proof -
  have "\<forall>A. nrows A = nat 1 \<and> ncols A = nat 1 \<longrightarrow> (\<exists>r. eig_of_scalar A = Inr r)"
    by (simp add: eig_of_scalar_def)
  with draw_accepts [where snr = "5 / 2" and eig = eig_of_scalar and g = alternating_noise
      and n = 1 and a = 60 and d = 6]
  show ?thesis by auto
qed

theorem draw_pseudo_spectrum_outcomes_witness:
  "draw_pseudo_spectrum eig_of_scalar alternating_noise 1 60 0 6
     = (Inl ZeroDivisionError, alternating_noise) \<and>
   draw_pseudo_spectrum eig_of_scalar alternating_noise 1 60 (- 1) 6
     = (Inl LinAlgError, \<lambda>i. alternating_noise (i + 50)) \<and>
   draw_pseudo_spectrum eig_of_scalar alternating_noise 1 60 (5 / 2) 6
     = (Inr [], \<lambda>i. alternating_noise (i + 50)) \<and>
   draw_pseudo_spectrum eig_of_empty alternating_noise 0 60 (- 1) 6
     = (Inr [], alternating_noise) \<and>
   \<not> (\<exists>e. fst (draw_pseudo_spectrum eig_of_scalar alternating_noise 1 60 (5 / 2) 6) = Inl e)"
proof -
  have ok1: "\<forall>A. nrows A = nat 1 \<and> ncols A = nat 1 \<longrightarrow> (\<exists>r. eig_of_scalar A = Inr r)"
    by (simp add: eig_of_scalar_def)
  have ok0: "\<forall>A. nrows A = nat 0 \<and> ncols A = nat 0 \<longrightarrow> (\<exists>r. eig_of_empty A = Inr r)"
    by (simp add: eig_of_empty_def)
  from draw_pseudo_spectrum_outcomes [where snr = 0 and eig = eig_of_scalar
      and g = alternating_noise and n = 1 and a = 60 and d = 6]
  have 1: "draw_pseudo_spectrum eig_of_scalar alternating_noise 1 60 0 6
            = (Inl ZeroDivisionError, alternating_noise)" by simp
  from draw_pseudo_spectrum_outcomes [where snr = "- 1" and eig = eig_of_scalar
      and g = alternating_noise and n = 1 and a = 60 and d = 6]
  have 2: "draw_pseudo_spectrum eig_of_scalar alternating_noise 1 60 (- 1) 6
            = (Inl LinAlgError, \<lambda>i. alternating_noise (i + 50))"
    by (simp add: CTE_SAMPLES_def)
  from draw_pseudo_spectrum_outcomes [where snr = "5 / 2" and eig = eig_of_scalar
      and g = alternating_noise and n = 1 and a = 60 and d = 6] ok1
  have 3: "draw_pseudo_spectrum eig_of_scalar alternating_noise 1 60 (5 / 2) 6
            = (Inr [], \<lambda>i. alternating_noise (i + 50))"
    and 5: "\<not> (\<exists>e. fst (draw_pseudo_spectrum eig_of_scalar alternating_noise 1 60 (5 / 2) 6) = Inl e)"
    by (auto simp add: CTE_SAMPLES_def)
  from draw_pseudo_spectrum_outcomes [where snr = "- 1" and eig = eig_of_empty
      and g = alternating_noise and n = 0 and a = 60 and d = 6] ok0
  have 4: "draw_pseudo_spectrum eig_of_empty alternating_noise 0 60 (- 1) 6
            = (Inr [], alternating_noise)"
    by auto
  from 1 2 3 4 5 show ?thesis by (intro conjI)
qed


end
